theory Spec2Isabelle
  imports Main "HOL-Library.Word" "HOL-Library.AList"
begin

unbundle bit_operations_syntax

section \<open>Data model\<close>

text \<open>
  The package \<open>multicast\<close> consists of \<open>Consumer\<close> (one multicast group, one socket and
  one receive goroutine per multicast-capable interface) and \<open>Listener\<close> (a registry of
  consumers). Both are used through pointers, so consumers live in an explicit heap and a
  \<open>*Consumer\<close> is an index into it. Sockets live in a socket table; a handle is an index
  into that table. The model is sequential: \<open>Close\<close>, \<open>RemoveConsumer\<close> and the registry's
  \<open>Close\<close> hold their lock from start to end, construction works on an object that nobody
  else can reach yet, and a receive loop is taken one iteration at a time. Each of them is
  a state transformer on the \<open>world\<close>; the mutexes themselves are not part of the state.
\<close>

type_synonym byte = "8 word"

text \<open>\<open>net.IP\<close> is a byte slice: 4 bytes (IPv4) or 16 bytes (IPv6).\<close>

type_synonym IP = "byte list"

record UDPAddr =
  IP :: IP
  Port :: int
  Zone :: string

text \<open>\<open>net.Interface\<close>; \<open>net.Flags\<close> is Go's \<open>uint\<close>.\<close>

record Interface =
  Index :: int
  MTU :: int
  Name :: string
  HardwareAddr :: "byte list"
  Flags :: "64 word"

text \<open>\<open>net.FlagMulticast\<close> is the fifth constant of \<open>1 << iota\<close>.\<close>

definition FlagMulticast :: "64 word" where
  "FlagMulticast = push_bit 4 1"

definition maxMTU :: nat where
  "maxMTU = 1500"

text \<open>A callback is user code; it is identified by a name and each invocation is recorded.\<close>

type_synonym ConsumerPacketCallback = nat

record Consumer =
  addr :: UDPAddr
  cb :: ConsumerPacketCallback
  ifis :: "Interface list"
  ipv4PacketConns :: "(int \<times> nat) list"
  closed :: bool

text \<open>
  \<open>ipv4PacketConns\<close> is Go's \<open>map[int]*ipv4.PacketConn\<close>, kept as an association list from
  interface index to socket handle: \<open>m[k] = v\<close> is \<open>AList.update k v m\<close>, ranging over the
  map visits every entry.
\<close>

record Listener =
  lifis :: "Interface list"
  consumers :: "nat list"

text \<open>A byte slice: the array it views and its length (all slices here start at offset 0).\<close>

record slice =
  arr :: nat
  len :: nat

text \<open>One invocation \<open>c.cb(ifi, src, payload)\<close>.\<close>

record invocation =
  inv_cb :: ConsumerPacketCallback
  inv_ifi :: Interface
  inv_src :: UDPAddr
  inv_payload :: slice

record world =
  socks :: "bool list"
  heap :: "Consumer list"
  loops :: "(nat \<times> nat \<times> Interface) list"
  mem :: "byte list list"
  calls :: "invocation list"

text \<open>
  \<open>socks w ! h\<close> says whether socket \<open>h\<close> is open; \<open>heap w ! r\<close> is the consumer behind
  pointer \<open>r\<close>; \<open>loops w\<close> lists the goroutines started by \<open>go c.readLoop(pc, ifi)\<close> as
  (consumer, socket, interface); \<open>mem w ! a\<close> is the content of byte array \<open>a\<close>;
  \<open>calls w\<close> is the sequence of callback invocations so far.
\<close>

datatype error =
    OSError string
  | NotMulticast UDPAddr
  | CreateSocketFailed error
  | SetReuseAddrFailed error
  | BindToDeviceFailed error
  | BindFailed error
  | FilePacketConnFailed error
  | OpenSocketFailed string error
  | SetControlMessageFailed string error
  | JoinGroupFailed UDPAddr string error

text \<open>
  The operating system and the \<open>ipv4\<close> package decide whether a call fails. Their answer
  may depend on the call, the interface and the whole state; \<open>Some e\<close> is the failure \<open>e\<close>.
\<close>

datatype syscall =
    SysSocket
  | SysReuseAddr
  | SysBindToDevice
  | SysBind
  | SysFilePacketConn
  | SysSetControlMessage
  | SysJoinGroup

type_synonym os = "syscall \<Rightarrow> Interface \<Rightarrow> world \<Rightarrow> string option"

section \<open>Functions of package net used by the code\<close>

definition v4InV6Prefix :: "byte list" where
  "v4InV6Prefix = [0, 0, 0, 0, 0, 0, 0, 0, 0, 0, 0xff, 0xff]"

definition To4 :: "IP \<Rightarrow> IP option" where
  "To4 ip =
     (if length ip = 4 then Some ip
      else if length ip = 16 \<and> take 10 ip = replicate 10 0 \<and> ip ! 10 = 0xff \<and> ip ! 11 = 0xff
           then Some (drop 12 ip)
      else None)"

definition IsMulticast :: "IP \<Rightarrow> bool" where
  "IsMulticast ip =
     (case To4 ip of
        Some ip4 \<Rightarrow> (ip4 ! 0) AND 0xf0 = 0xe0
      | None \<Rightarrow> length ip = 16 \<and> ip ! 0 = 0xff)"

definition IP_Equal :: "IP \<Rightarrow> IP \<Rightarrow> bool" where
  "IP_Equal ip x =
     (if length ip = length x then ip = x
      else if length ip = 4 \<and> length x = 16 then take 12 x = v4InV6Prefix \<and> ip = drop 12 x
      else if length ip = 16 \<and> length x = 4 then take 12 ip = v4InV6Prefix \<and> drop 12 ip = x
      else False)"

section \<open>Consumer\<close>

text \<open>Closing a socket; closing a handle that is not open changes nothing.\<close>

definition pc_Close :: "nat \<Rightarrow> bool list \<Rightarrow> bool list" where
  "pc_Close h ss = ss[h := False]"

text \<open>
  \<open>openPacketConn\<close>: \<open>syscall.Socket\<close> creates a socket, which gets the next handle; every
  later failure closes it again. On success the packet connection wraps that socket
  (\<open>net.FilePacketConn\<close> duplicates the descriptor and \<open>f.Close()\<close> closes the original one,
  so a handle stands for the socket, not for a descriptor number). The consumer \<open>r\<close> is the
  receiver of the method; its address is what the socket is bound to.
\<close>

definition openPacketConn :: "os \<Rightarrow> nat \<Rightarrow> Interface \<Rightarrow> world \<Rightarrow> world \<times> (error + nat)" where
  "openPacketConn os r ifi w =
     (case os SysSocket ifi w of
        Some e \<Rightarrow> (w, Inl (CreateSocketFailed (OSError e)))
      | None \<Rightarrow>
          (let s = length (socks w);
               w1 = w\<lparr>socks := socks w @ [True]\<rparr>;
               wc = w1\<lparr>socks := pc_Close s (socks w1)\<rparr>
           in case os SysReuseAddr ifi w1 of
                Some e \<Rightarrow> (wc, Inl (SetReuseAddrFailed (OSError e)))
              | None \<Rightarrow>
                 (case os SysBindToDevice ifi w1 of
                    Some e \<Rightarrow> (wc, Inl (BindToDeviceFailed (OSError e)))
                  | None \<Rightarrow>
                     (case os SysBind ifi w1 of
                        Some e \<Rightarrow> (wc, Inl (BindFailed (OSError e)))
                      | None \<Rightarrow>
                         (case os SysFilePacketConn ifi w1 of
                            Some e \<Rightarrow> (wc, Inl (FilePacketConnFailed (OSError e)))
                          | None \<Rightarrow> (w1, Inr s))))))"

text \<open>\<open>cleanup\<close>: close every socket in the map, then replace the map by an empty one.\<close>

definition cleanup :: "nat \<Rightarrow> world \<Rightarrow> world" where
  "cleanup r w =
     (let c = heap w ! r
      in w\<lparr>socks := fold (\<lambda>(i, pc). pc_Close pc) (ipv4PacketConns c) (socks w),
            heap := (heap w)[r := c\<lparr>ipv4PacketConns := []\<rparr>]\<rparr>)"

text \<open>The body of \<open>start\<close>: the loop over \<open>c.ifis\<close>, with the interfaces still to visit.\<close>

fun start_loop :: "os \<Rightarrow> nat \<Rightarrow> Interface list \<Rightarrow> world \<Rightarrow> world \<times> error option" where
  "start_loop os r [] w = (w, None)"
| "start_loop os r (ifi # rest) w =
     (if Flags ifi AND FlagMulticast = 0 then start_loop os r rest w
      else
        (case openPacketConn os r ifi w of
           (w1, Inl e) \<Rightarrow> (cleanup r w1, Some (OpenSocketFailed (Name ifi) e))
         | (w1, Inr pc) \<Rightarrow>
            (case os SysSetControlMessage ifi w1 of
               Some e \<Rightarrow> (cleanup r w1, Some (SetControlMessageFailed (Name ifi) (OSError e)))
             | None \<Rightarrow>
                (case os SysJoinGroup ifi w1 of
                   Some e \<Rightarrow>
                     (cleanup r w1,
                      Some (JoinGroupFailed (addr (heap w1 ! r)) (Name ifi) (OSError e)))
                 | None \<Rightarrow>
                     (let c = heap w1 ! r;
                          w2 = w1\<lparr>heap := (heap w1)
                                 [r := c\<lparr>ipv4PacketConns :=
                                           AList.update (Index ifi) pc (ipv4PacketConns c)\<rparr>]\<rparr>;
                          w3 = w2\<lparr>loops := loops w2 @ [(r, pc, ifi)]\<rparr>
                      in start_loop os r rest w3)))))"

definition start :: "os \<Rightarrow> nat \<Rightarrow> world \<Rightarrow> world \<times> error option" where
  "start os r w = start_loop os r (ifis (heap w ! r)) w"

text \<open>\<open>NewConsumer\<close>: the new object gets the next free pointer.\<close>

definition NewConsumer ::
  "os \<Rightarrow> UDPAddr \<Rightarrow> Interface list \<Rightarrow> ConsumerPacketCallback \<Rightarrow> world \<Rightarrow> world \<times> (error + nat)" where
  "NewConsumer os a is f w =
     (if \<not> IsMulticast (IP a) then (w, Inl (NotMulticast a))
      else
        (let r = length (heap w);
             w1 = w\<lparr>heap := heap w @
                    [\<lparr>addr = a, cb = f, ifis = is, ipv4PacketConns = [], closed = False\<rparr>]\<rparr>
         in case start os r w1 of
              (w2, Some e) \<Rightarrow> (w2, Inl e)
            | (w2, None) \<Rightarrow> (w2, Inr r)))"

definition Consumer_Close :: "nat \<Rightarrow> world \<Rightarrow> world" where
  "Consumer_Close r w =
     (let c = heap w ! r
      in if closed c then w
         else w\<lparr>socks := fold (\<lambda>(i, pc). pc_Close pc) (ipv4PacketConns c) (socks w),
                 heap := (heap w)[r := c\<lparr>closed := True, ipv4PacketConns := []\<rparr>]\<rparr>)"

definition Consumer_Address :: "nat \<Rightarrow> world \<Rightarrow> UDPAddr" where
  "Consumer_Address r w = addr (heap w ! r)"

definition Consumer_Interfaces :: "nat \<Rightarrow> world \<Rightarrow> Interface list" where
  "Consumer_Interfaces r w = ifis (heap w ! r)"

section \<open>Listener\<close>

definition NewListener :: "Interface list \<Rightarrow> Listener" where
  "NewListener is = \<lparr>lifis = is, consumers = []\<rparr>"

definition AddConsumer ::
  "os \<Rightarrow> Listener \<Rightarrow> UDPAddr \<Rightarrow> ConsumerPacketCallback \<Rightarrow> world
     \<Rightarrow> world \<times> Listener \<times> (error + nat)" where
  "AddConsumer os l a f w =
     (case NewConsumer os a (lifis l) f w of
        (w1, Inl e) \<Rightarrow> (w1, l, Inl e)
      | (w1, Inr r) \<Rightarrow> (w1, l\<lparr>consumers := consumers l @ [r]\<rparr>, Inr r))"

text \<open>
  The loop of \<open>RemoveConsumer\<close>: at the first \<open>i\<close> with \<open>l.consumers[i] == consumer\<close> the
  slice becomes \<open>append(l.consumers[:i], l.consumers[i+1:]...)\<close> and the loop breaks.
\<close>

fun remove_loop :: "nat \<Rightarrow> nat list \<Rightarrow> nat list" where
  "remove_loop consumer [] = []"
| "remove_loop consumer (c # cs) = (if c = consumer then cs else c # remove_loop consumer cs)"

definition RemoveConsumer :: "Listener \<Rightarrow> nat \<Rightarrow> world \<Rightarrow> world \<times> Listener" where
  "RemoveConsumer l consumer w =
     (let l1 = l\<lparr>consumers := remove_loop consumer (consumers l)\<rparr>
      in (Consumer_Close consumer w, l1))"

definition Listener_Close :: "Listener \<Rightarrow> world \<Rightarrow> world \<times> Listener" where
  "Listener_Close l w = (fold Consumer_Close (consumers l) w, l\<lparr>consumers := []\<rparr>)"

definition Listener_Interfaces :: "Listener \<Rightarrow> Interface list" where
  "Listener_Interfaces l = lifis l"

definition Listener_Consumers :: "Listener \<Rightarrow> nat list" where
  "Listener_Consumers l = consumers l"

section \<open>The receive loop\<close>

text \<open>\<open>ipv4.ControlMessage\<close>, the per-packet metadata delivered with a datagram.\<close>

record ControlMessage =
  TTL :: int
  Src :: IP
  Dst :: IP
  IfIndex :: int

text \<open>
  What one call \<open>pc.ReadFrom(buf)\<close> gives back. \<open>ReadFailed isClosed\<close> is a non-nil error,
  with \<open>isClosed\<close> the value of \<open>errors.Is(err, net.ErrClosed)\<close>. \<open>ReadDone n cm src bs\<close> is
  a nil error with the returned \<open>n\<close>, \<open>cm\<close> and \<open>src\<close>, the call having stored the bytes
  \<open>bs\<close> at the front of \<open>buf\<close>.
\<close>

datatype read_result =
    ReadFailed bool
  | ReadDone int "ControlMessage option" UDPAddr "byte list"

text \<open>Storing bytes at the front of an array never changes the array's length.\<close>

definition store_front :: "byte list \<Rightarrow> byte list \<Rightarrow> byte list" where
  "store_front bs old = take (length old) bs @ drop (length bs) old"

datatype loop_status = Running | Returned | Panicked

text \<open>
  One iteration of the \<open>for\<close> loop of \<open>readLoop\<close>, for the consumer \<open>r\<close>, its socket \<open>pc\<close>,
  the interface \<open>ifi\<close> and the receive buffer \<open>buf\<close> (an array of \<open>mem\<close>). \<open>make([]byte, n)\<close>
  panics for a negative \<open>n\<close>, \<open>buf[:n]\<close> panics when \<open>n\<close> exceeds the buffer.
\<close>

definition readLoop_iter ::
  "nat \<Rightarrow> nat \<Rightarrow> Interface \<Rightarrow> nat \<Rightarrow> read_result \<Rightarrow> world \<Rightarrow> loop_status \<times> world" where
  "readLoop_iter r pc ifi buf rd w =
     (let c = heap w ! r
      in if closed c then (Returned, w)
         else
           (case rd of
              ReadFailed isClosed \<Rightarrow> (if isClosed then (Returned, w) else (Running, w))
            | ReadDone n cm src bs \<Rightarrow>
               (let w1 = w\<lparr>mem := (mem w)[buf := store_front bs (mem w ! buf)]\<rparr>
                in case cm of
                     None \<Rightarrow> (Running, w1)
                   | Some m \<Rightarrow>
                      (if IP_Equal (Dst m) (IP (addr c)) then
                         (if n < 0 \<or> int (length (mem w1 ! buf)) < n then (Panicked, w1)
                          else
                            (let payload = \<lparr>arr = length (mem w1), len = nat n\<rparr>;
                                 w2 = w1\<lparr>mem := mem w1 @ [take (nat n) (mem w1 ! buf)]\<rparr>
                             in (Running,
                                 w2\<lparr>calls := calls w2 @
                                      [\<lparr>inv_cb = cb c, inv_ifi = ifi, inv_src = src,
                                        inv_payload = payload\<rparr>]\<rparr>)))
                       else (Running, w1)))))"

text \<open>
  The loop runs as long as reads come back; the list holds the results of the reads still
  to come. With no read left the goroutine is blocked in \<open>ReadFrom\<close>.
\<close>

fun readLoop_from ::
  "nat \<Rightarrow> nat \<Rightarrow> Interface \<Rightarrow> nat \<Rightarrow> read_result list \<Rightarrow> world \<Rightarrow> loop_status \<times> world" where
  "readLoop_from r pc ifi buf [] w = (Running, w)"
| "readLoop_from r pc ifi buf (rd # rds) w =
     (case readLoop_iter r pc ifi buf rd w of
        (Running, w1) \<Rightarrow> readLoop_from r pc ifi buf rds w1
      | (st, w1) \<Rightarrow> (st, w1))"

text \<open>\<open>readLoop\<close>: \<open>buf := make([]byte, maxMTU)\<close> allocates a new zeroed array.\<close>

definition readLoop ::
  "nat \<Rightarrow> nat \<Rightarrow> Interface \<Rightarrow> read_result list \<Rightarrow> world \<Rightarrow> loop_status \<times> world" where
  "readLoop r pc ifi rds w =
     readLoop_from r pc ifi (length (mem w)) rds (w\<lparr>mem := mem w @ [replicate maxMTU 0]\<rparr>)"

text \<open>
  A datagram socket hands over at most as many bytes as the buffer holds and drops the
  rest of the datagram: reading the datagram \<open>d\<close> into a buffer of \<open>k\<close> bytes stores the
  first \<open>min k (length d)\<close> bytes and returns that count.
\<close>

definition read_datagram :: "nat \<Rightarrow> ControlMessage option \<Rightarrow> UDPAddr \<Rightarrow> byte list \<Rightarrow> read_result" where
  "read_datagram k cm src d = ReadDone (int (min k (length d))) cm src (take k d)"

section \<open>The consumer invariant and the reachable states\<close>

text \<open>
  The state invariant of a consumer, relative to the socket table: the map has at most one
  entry per interface index, every socket in it exists and is open, and a closed consumer
  has an empty map.
\<close>

definition Consumer_ok :: "bool list \<Rightarrow> Consumer \<Rightarrow> bool" where
  "Consumer_ok ss c =
     (distinct (map fst (ipv4PacketConns c)) \<and>
      list_all (\<lambda>(i, pc). pc < length ss \<and> ss ! pc) (ipv4PacketConns c) \<and>
      (closed c \<longrightarrow> ipv4PacketConns c = []))"

definition Consumer_inv :: "world \<Rightarrow> nat \<Rightarrow> bool" where
  "Consumer_inv w r = Consumer_ok (socks w) (heap w ! r)"

text \<open>
  What a program can do with the package: construct a consumer (\<open>NewConsumer\<close>, also through
  \<open>AddConsumer\<close>), close a consumer it holds (\<open>Close\<close>, also through \<open>RemoveConsumer\<close> and the
  registry's \<open>Close\<close>), and let a started receive loop run one iteration on the result of
  its read. A program holds only pointers that \<open>NewConsumer\<close> returned, and only started
  loops run.
\<close>

datatype action =
    ActNewConsumer UDPAddr "Interface list" ConsumerPacketCallback
  | ActClose nat
  | ActReceive nat nat Interface nat read_result

fun perform :: "os \<Rightarrow> action \<Rightarrow> world \<Rightarrow> world" where
  "perform os (ActNewConsumer a is f) w = fst (NewConsumer os a is f w)"
| "perform os (ActClose r) w = (if r < length (heap w) then Consumer_Close r w else w)"
| "perform os (ActReceive r pc ifi buf rd) w =
     (if (r, pc, ifi) \<in> set (loops w) then snd (readLoop_iter r pc ifi buf rd w) else w)"

definition run :: "os \<Rightarrow> action list \<Rightarrow> world \<Rightarrow> world" where
  "run os acts w = fold (perform os) acts w"

text \<open>
  The invariant of the whole state: every consumer satisfies its invariant and no socket
  belongs to two consumers.
\<close>

definition handles :: "Consumer \<Rightarrow> nat set" where
  "handles c = snd ` set (ipv4PacketConns c)"

definition Heap_ok :: "bool list \<Rightarrow> Consumer list \<Rightarrow> bool" where
  "Heap_ok ss hp =
     ((\<forall>r<length hp. Consumer_ok ss (hp ! r)) \<and>
      (\<forall>r<length hp. \<forall>r'<length hp. r \<noteq> r' \<longrightarrow> handles (hp ! r) \<inter> handles (hp ! r') = {}))"

definition World_inv :: "world \<Rightarrow> bool" where
  "World_inv w = Heap_ok (socks w) (heap w)"

text \<open>Two consumer values that differ at most in the socket map.\<close>

definition same_but_conns :: "Consumer \<Rightarrow> Consumer \<Rightarrow> bool" where
  "same_but_conns c c' =
     (addr c' = addr c \<and> cb c' = cb c \<and> ifis c' = ifis c \<and> closed c' = closed c)"

text \<open>
  The payload of an invocation is at most \<open>k\<close> bytes long and is an array of its own, of
  exactly the slice's length, other than the receive buffer \<open>buf\<close>.
\<close>

definition payload_ok :: "nat \<Rightarrow> nat \<Rightarrow> world \<Rightarrow> invocation \<Rightarrow> bool" where
  "payload_ok k buf w i =
     (len (inv_payload i) \<le> k \<and> arr (inv_payload i) < length (mem w) \<and>
      arr (inv_payload i) \<noteq> buf \<and>
      length (mem w ! arr (inv_payload i)) = len (inv_payload i))"

section \<open>Example values\<close>

text \<open>
  The fixtures of the package's tests: the loopback interface (up, loopback, multicast),
  the group 224.1.1.1:12345 and the unicast address 192.168.1.1:12345; further an
  interface without the multicast flag, the state before anything was created, an
  operating system on which every call succeeds and one that refuses group membership.
\<close>

definition ex_lo :: Interface where
  "ex_lo = \<lparr>Index = 1, MTU = 65536, Name = ''lo'', HardwareAddr = [], Flags = 0x15\<rparr>"

definition ex_eth :: Interface where
  "ex_eth = \<lparr>Index = 2, MTU = 1500, Name = ''eth0'', HardwareAddr = [], Flags = 0x3\<rparr>"

definition ex_group :: UDPAddr where
  "ex_group = \<lparr>IP = [224, 1, 1, 1], Port = 12345, Zone = []\<rparr>"

definition ex_unicast :: UDPAddr where
  "ex_unicast = \<lparr>IP = [192, 168, 1, 1], Port = 12345, Zone = []\<rparr>"

definition ex_world :: world where
  "ex_world = \<lparr>socks = [], heap = [], loops = [], mem = [], calls = []\<rparr>"

definition os_ok :: os where
  "os_ok = (\<lambda>_ _ _. None)"

definition os_no_join :: os where
  "os_no_join = (\<lambda>c _ _. if c = SysJoinGroup then Some ''EPERM'' else None)"

text \<open>The state after \<open>NewConsumer\<close> succeeded on the loopback interface.\<close>

definition ex_world1 :: world where
  "ex_world1 =
     \<lparr>socks = [True],
      heap = [\<lparr>addr = ex_group, cb = 7, ifis = [ex_lo], ipv4PacketConns = [(1, 0)],
               closed = False\<rparr>],
      loops = [(0, 0, ex_lo)], mem = [], calls = []\<rparr>"

text \<open>The state after that consumer was closed.\<close>

definition ex_world2 :: world where
  "ex_world2 =
     \<lparr>socks = [False],
      heap = [\<lparr>addr = ex_group, cb = 7, ifis = [ex_lo], ipv4PacketConns = [],
               closed = True\<rparr>],
      loops = [(0, 0, ex_lo)], mem = [], calls = []\<rparr>"

text \<open>A state with an open consumer (pointer 0) and a closed one (pointer 1).\<close>

definition ex_world3 :: world where
  "ex_world3 =
     \<lparr>socks = [True, False],
      heap = [\<lparr>addr = ex_group, cb = 7, ifis = [ex_lo], ipv4PacketConns = [(1, 0)],
               closed = False\<rparr>,
              \<lparr>addr = ex_group, cb = 8, ifis = [ex_lo], ipv4PacketConns = [],
               closed = True\<rparr>],
      loops = [(0, 0, ex_lo), (1, 1, ex_lo)], mem = [], calls = []\<rparr>"

definition ex_listener :: Listener where
  "ex_listener = \<lparr>lifis = [ex_lo], consumers = [0, 1]\<rparr>"

text \<open>The open consumer's state with a receive buffer of four bytes as array 0.\<close>

definition ex_world4 :: world where
  "ex_world4 = ex_world1\<lparr>mem := [[0, 0, 0, 0]]\<rparr>"

text \<open>Metadata of a datagram sent to the group, and of one sent to another group.\<close>

definition ex_cm :: ControlMessage where
  "ex_cm = \<lparr>TTL = 1, Src = [10, 0, 0, 1], Dst = [224, 1, 1, 1], IfIndex = 1\<rparr>"

definition ex_cm_other :: ControlMessage where
  "ex_cm_other = \<lparr>TTL = 1, Src = [10, 0, 0, 1], Dst = [224, 1, 1, 2], IfIndex = 1\<rparr>"

definition ex_src :: UDPAddr where
  "ex_src = \<lparr>IP = [10, 0, 0, 1], Port = 5000, Zone = []\<rparr>"

text \<open>A datagram of 1501 bytes.\<close>

definition ex_long :: "byte list" where
  "ex_long = replicate 1501 0x41"

section \<open>Evaluation and frame lemmas\<close>

lemmas ex_defs = ex_lo_def ex_eth_def ex_world_def ex_group_def ex_unicast_def os_ok_def
  os_no_join_def ex_world1_def ex_world2_def ex_world3_def ex_listener_def ex_world4_def
  ex_cm_def ex_cm_other_def ex_src_def

lemmas run_defs = NewConsumer_def IsMulticast_def To4_def start_def FlagMulticast_def
  openPacketConn_def cleanup_def Let_def pc_Close_def

lemma ex_NewConsumer:
  "NewConsumer os_ok ex_group [ex_lo] 7 ex_world = (ex_world1, Inr 0)"
  by (simp add: ex_defs run_defs)

lemma start_loop_skip:
  "\<forall>i\<in>set is. Flags i AND FlagMulticast = 0 \<Longrightarrow> start_loop os r is w = (w, None)"
  by (induction "is") simp_all

lemma remove_loop_absent: "x \<notin> set xs \<Longrightarrow> remove_loop x xs = xs"
  by (induction xs) auto

lemma remove_loop_remove1: "remove_loop x xs = remove1 x xs"
  by (induction xs) auto

lemma remove_loop_present: "x \<in> set xs \<Longrightarrow> Suc (length (remove_loop x xs)) = length xs"
  by (induction xs) auto

lemma openPacketConn_frame:
  "openPacketConn os r ifi w = (w1, res) \<Longrightarrow>
     heap w1 = heap w \<and> loops w1 = loops w \<and> mem w1 = mem w \<and> calls w1 = calls w"
  by (auto simp: openPacketConn_def Let_def split: option.splits)

lemma cleanup_frame:
  "length (heap (cleanup r w)) = length (heap w) \<and> loops (cleanup r w) = loops w \<and>
   mem (cleanup r w) = mem w \<and> calls (cleanup r w) = calls w"
  by (simp add: cleanup_def Let_def)

lemma start_loop_heap_length:
  "start_loop os r is w = (w', res) \<Longrightarrow> length (heap w') = length (heap w)"
proof (induction "is" arbitrary: w)
  case Nil
  then show ?case by simp
next
  case (Cons ifi rest)
  show ?case
  proof (cases "Flags ifi AND FlagMulticast = 0")
    case True
    with Cons show ?thesis by simp
  next
    case False
    obtain w1 ro where o: "openPacketConn os r ifi w = (w1, ro)"
      by (cases "openPacketConn os r ifi w")
    then have h1: "heap w1 = heap w"
      using openPacketConn_frame by blast
    show ?thesis
    proof (cases ro)
      case (Inl e)
      with Cons.prems False o h1 show ?thesis
        by (auto simp: cleanup_frame)
    next
      case (Inr pc)
      with Cons.prems False o h1 Cons.IH show ?thesis
        by (auto simp: cleanup_frame Let_def split: option.splits)
    qed
  qed
qed

lemma NewConsumer_ref:
  "NewConsumer os a is f w = (w', Inr r) \<Longrightarrow> r = length (heap w) \<and> r < length (heap w')"
  by (auto simp: NewConsumer_def Let_def start_def split: if_splits prod.splits option.splits
           dest!: start_loop_heap_length)

section \<open>Construction with an address that is not multicast\<close>

text \<open>
  C4. For every UDP address whose IP is not a multicast address, every interface list and
  every callback, \<open>NewConsumer\<close> fails with the not-a-multicast-address error and leaves the
  whole state as it was: no socket is opened, no receive loop is started, no object is
  created. \<open>AddConsumer\<close> of a registry fails with the same error, and both the state and
  the registry's collection are unchanged.
\<close>

theorem NewConsumer_not_multicast:
  "\<not> IsMulticast (IP a) \<Longrightarrow>
     NewConsumer os a is f w = (w, Inl (NotMulticast a)) \<and>
     AddConsumer os l a f w = (w, l, Inl (NotMulticast a))"
  by (simp add: NewConsumer_def AddConsumer_def)

theorem NewConsumer_not_multicast_witness:
  "\<not> IsMulticast (IP ex_unicast) \<and>
   NewConsumer os_ok ex_unicast [ex_lo] 7 ex_world = (ex_world, Inl (NotMulticast ex_unicast)) \<and>
   AddConsumer os_ok (NewListener [ex_lo]) ex_unicast 7 ex_world =
     (ex_world, NewListener [ex_lo], Inl (NotMulticast ex_unicast))"
proof -
  have h: "\<not> IsMulticast (IP ex_unicast)"
    by (simp add: ex_unicast_def IsMulticast_def To4_def)
  show ?thesis
    using h NewConsumer_not_multicast [OF h] by simp
qed

section \<open>Adding a consumer to the registry\<close>

text \<open>
  C6. When \<open>AddConsumer\<close> succeeds, the collection afterwards is the collection before with
  one entry appended, and that entry is the pointer returned to the caller (a pointer that
  did not exist before and that is valid afterwards); when \<open>AddConsumer\<close> fails, the
  registry is exactly as before.
\<close>

theorem AddConsumer_collection:
  "AddConsumer os l a f w = (w', l', res) \<Longrightarrow>
     (case res of
        Inr r \<Rightarrow>
          Listener_Consumers l' = Listener_Consumers l @ [r] \<and>
          length (Listener_Consumers l') = length (Listener_Consumers l) + 1 \<and>
          r = length (heap w) \<and> r < length (heap w')
      | Inl e \<Rightarrow> l' = l)"
  by (auto simp: AddConsumer_def Listener_Consumers_def split: prod.splits sum.splits
           dest: NewConsumer_ref)

theorem AddConsumer_collection_witness:
  "AddConsumer os_ok (NewListener [ex_lo]) ex_group 7 ex_world =
     (ex_world1, \<lparr>lifis = [ex_lo], consumers = [0]\<rparr>, Inr 0) \<and>
   Listener_Consumers \<lparr>lifis = [ex_lo], consumers = [0]\<rparr> =
     Listener_Consumers (NewListener [ex_lo]) @ [0] \<and>
   AddConsumer os_no_join (NewListener [ex_lo]) ex_group 7 ex_world =
     (ex_world\<lparr>socks := [True],
                heap := [\<lparr>addr = ex_group, cb = 7, ifis = [ex_lo], ipv4PacketConns = [],
                          closed = False\<rparr>]\<rparr>,
      NewListener [ex_lo], Inl (JoinGroupFailed ex_group ''lo'' (OSError ''EPERM'')))"
proof -
  have h: "AddConsumer os_ok (NewListener [ex_lo]) ex_group 7 ex_world =
             (ex_world1, \<lparr>lifis = [ex_lo], consumers = [0]\<rparr>, Inr 0)"
    by (simp add: AddConsumer_def ex_NewConsumer NewListener_def)
  have g: "AddConsumer os_no_join (NewListener [ex_lo]) ex_group 7 ex_world =
     (ex_world\<lparr>socks := [True],
                heap := [\<lparr>addr = ex_group, cb = 7, ifis = [ex_lo], ipv4PacketConns = [],
                          closed = False\<rparr>]\<rparr>,
      NewListener [ex_lo], Inl (JoinGroupFailed ex_group ''lo'' (OSError ''EPERM'')))"
    by (simp add: AddConsumer_def NewListener_def ex_defs run_defs)
  show ?thesis
    using h g AddConsumer_collection [OF h] AddConsumer_collection [OF g] by simp
qed

section \<open>Construction that fails after a socket was opened\<close>

text \<open>
  C1. Evaluation of \<open>NewConsumer\<close> for the loopback interface when the operating system
  refuses the group membership: the error names the interface and the step, the consumer's
  map is empty, and the socket opened for the interface (handle 0) is still open, since
  \<open>cleanup\<close> closes the sockets of the map and the socket enters the map only after
  \<open>JoinGroup\<close>.
\<close>

theorem NewConsumer_join_failure_leaves_socket_open:
  "NewConsumer os_no_join ex_group [ex_lo] 7 ex_world =
     (\<lparr>socks = [True],
       heap = [\<lparr>addr = ex_group, cb = 7, ifis = [ex_lo], ipv4PacketConns = [],
                closed = False\<rparr>],
       loops = [], mem = [], calls = []\<rparr>,
      Inl (JoinGroupFailed ex_group ''lo'' (OSError ''EPERM'')))"
  by (simp add: ex_defs run_defs)

section \<open>Closing sockets and consumers\<close>

lemma close_all_length [simp]:
  "length (fold (\<lambda>(i, pc). pc_Close pc) m ss) = length ss"
  by (induction m arbitrary: ss) (auto simp: pc_Close_def)

lemma close_all_nth:
  "h < length ss \<Longrightarrow>
     fold (\<lambda>(i, pc). pc_Close pc) m ss ! h = (ss ! h \<and> h \<notin> snd ` set m)"
proof (induction m arbitrary: ss)
  case Nil
  then show ?case by simp
next
  case (Cons x m)
  obtain i pc where x: "x = (i, pc)" by (cases x)
  have "fold (\<lambda>(i, pc). pc_Close pc) (x # m) ss ! h =
        fold (\<lambda>(i, pc). pc_Close pc) m (pc_Close pc ss) ! h"
    by (simp add: x)
  also have "\<dots> = (pc_Close pc ss ! h \<and> h \<notin> snd ` set m)"
    using Cons.prems by (intro Cons.IH) (simp add: pc_Close_def)
  also have "\<dots> = (ss ! h \<and> h \<notin> snd ` set (x # m))"
    using Cons.prems by (cases "pc < length ss") (auto simp: x pc_Close_def nth_list_update)
  finally show ?case .
qed

lemma Consumer_Close_heap_length [simp]:
  "length (heap (Consumer_Close r w)) = length (heap w)"
  by (simp add: Consumer_Close_def Let_def)

lemma Consumer_Close_socks_length [simp]:
  "length (socks (Consumer_Close r w)) = length (socks w)"
  by (simp add: Consumer_Close_def Let_def)

lemma Consumer_Close_closed:
  "r < length (heap w) \<Longrightarrow> closed (heap (Consumer_Close r w) ! r)"
  by (simp add: Consumer_Close_def Let_def)

lemma Consumer_Close_when_closed:
  "closed (heap w ! r) \<Longrightarrow> Consumer_Close r w = w"
  by (simp add: Consumer_Close_def)

lemma Consumer_Close_idem:
  "r < length (heap w) \<Longrightarrow> Consumer_Close r (Consumer_Close r w) = Consumer_Close r w"
  by (simp add: Consumer_Close_when_closed Consumer_Close_closed)

lemma Consumer_Close_other:
  "r' \<noteq> r \<Longrightarrow> heap (Consumer_Close r w) ! r' = heap w ! r'"
  by (simp add: Consumer_Close_def Let_def)

lemma Consumer_Close_keeps_closed:
  "r' < length (heap w) \<Longrightarrow> closed (heap w ! r') \<Longrightarrow> heap (Consumer_Close r w) ! r' = heap w ! r'"
  by (cases "r' = r") (simp_all add: Consumer_Close_when_closed Consumer_Close_other)

lemma Consumer_Close_sock_stays_closed:
  "h < length (socks w) \<Longrightarrow> \<not> socks w ! h \<Longrightarrow> \<not> socks (Consumer_Close r w) ! h"
  by (simp add: Consumer_Close_def Let_def close_all_nth)

lemma Consumer_Close_releases:
  "r < length (heap w) \<Longrightarrow> \<not> closed (heap w ! r) \<Longrightarrow>
     ipv4PacketConns (heap (Consumer_Close r w) ! r) = [] \<and>
     (\<forall>(i, pc)\<in>set (ipv4PacketConns (heap w ! r)).
        pc < length (socks w) \<longrightarrow> \<not> socks (Consumer_Close r w) ! pc)"
  by (force simp: Consumer_Close_def Let_def close_all_nth)

lemma funpow_idem:
  "f (f x) = f x \<Longrightarrow> 0 < n \<Longrightarrow> (f ^^ n) x = f x"
proof (induction n)
  case 0
  then show ?case by simp
next
  case (Suc n)
  show ?case
  proof (cases "n = 0")
    case True
    then show ?thesis by simp
  next
    case False
    with Suc show ?thesis by simp
  qed
qed

lemma Listener_Close_twice:
  "(\<lambda>(w, l). Listener_Close l w) ((\<lambda>(w, l). Listener_Close l w) (w, l)) = (\<lambda>(w, l). Listener_Close l w) (w, l)"
  by (simp add: Listener_Close_def)

lemma fold_Close_heap_length [simp]:
  "length (heap (fold Consumer_Close rs w)) = length (heap w)"
  by (induction rs arbitrary: w) simp_all

lemma fold_Close_socks_length [simp]:
  "length (socks (fold Consumer_Close rs w)) = length (socks w)"
  by (induction rs arbitrary: w) simp_all

lemma fold_Close_keeps_closed:
  "r < length (heap w) \<Longrightarrow> closed (heap w ! r) \<Longrightarrow> heap (fold Consumer_Close rs w) ! r = heap w ! r"
  by (induction rs arbitrary: w) (simp_all add: Consumer_Close_keeps_closed)

lemma fold_Close_sock_stays_closed:
  "h < length (socks w) \<Longrightarrow> \<not> socks w ! h \<Longrightarrow> \<not> socks (fold Consumer_Close rs w) ! h"
  by (induction rs arbitrary: w) (simp_all add: Consumer_Close_sock_stays_closed)

lemma fold_Close_closes:
  "r \<in> set rs \<Longrightarrow> r < length (heap w) \<Longrightarrow> closed (heap (fold Consumer_Close rs w) ! r)"
proof (induction rs arbitrary: w)
  case Nil
  then show ?case by simp
next
  case (Cons x xs)
  show ?case
  proof (cases "r = x")
    case True
    have "closed (heap (Consumer_Close x w) ! x)"
      using Cons.prems True by (simp add: Consumer_Close_closed)
    then show ?thesis
      using Cons.prems True by (simp add: fold_Close_keeps_closed)
  next
    case False
    with Cons show ?thesis by simp
  qed
qed

lemma fold_Close_releases:
  "r \<in> set rs \<Longrightarrow> r < length (heap w) \<Longrightarrow> \<not> closed (heap w ! r) \<Longrightarrow>
     ipv4PacketConns (heap (fold Consumer_Close rs w) ! r) = [] \<and>
     (\<forall>(i, pc)\<in>set (ipv4PacketConns (heap w ! r)).
        pc < length (socks w) \<longrightarrow> \<not> socks (fold Consumer_Close rs w) ! pc)"
proof (induction rs arbitrary: w)
  case Nil
  then show ?case by simp
next
  case (Cons x xs)
  show ?case
  proof (cases "r = x")
    case True
    let ?w1 = "Consumer_Close x w"
    have c: "closed (heap ?w1 ! x)"
      using Cons.prems True by (simp add: Consumer_Close_closed)
    have rel: "ipv4PacketConns (heap ?w1 ! x) = [] \<and>
       (\<forall>(i, pc)\<in>set (ipv4PacketConns (heap w ! x)).
          pc < length (socks w) \<longrightarrow> \<not> socks ?w1 ! pc)"
      using Cons.prems True by (simp add: Consumer_Close_releases)
    have "heap (fold Consumer_Close xs ?w1) ! x = heap ?w1 ! x"
      using c Cons.prems True by (simp add: fold_Close_keeps_closed)
    moreover have "\<forall>(i, pc)\<in>set (ipv4PacketConns (heap w ! x)).
          pc < length (socks w) \<longrightarrow> \<not> socks (fold Consumer_Close xs ?w1) ! pc"
    proof (clarify)
      fix i pc
      assume m: "(i, pc) \<in> set (ipv4PacketConns (heap w ! x))" and b: "pc < length (socks w)"
        and o: "socks (fold Consumer_Close xs ?w1) ! pc"
      from rel m b have "\<not> socks ?w1 ! pc" by auto
      with b have "\<not> socks (fold Consumer_Close xs ?w1) ! pc"
        by (intro fold_Close_sock_stays_closed) simp_all
      with o show False by simp
    qed
    ultimately show ?thesis
      using rel True by simp
  next
    case False
    then have e: "heap (Consumer_Close x w) ! r = heap w ! r"
      by (simp add: Consumer_Close_other)
    have "ipv4PacketConns (heap (fold Consumer_Close xs (Consumer_Close x w)) ! r) = [] \<and>
     (\<forall>(i, pc)\<in>set (ipv4PacketConns (heap (Consumer_Close x w) ! r)).
        pc < length (socks (Consumer_Close x w)) \<longrightarrow>
        \<not> socks (fold Consumer_Close xs (Consumer_Close x w)) ! pc)"
      using Cons.prems False e by (intro Cons.IH) simp_all
    then show ?thesis by (simp add: e)
  qed
qed

lemma ex_Close: "Consumer_Close 0 ex_world1 = ex_world2"
  by (simp add: Consumer_Close_def ex_world1_def ex_world2_def pc_Close_def)

lemma ex_inv1: "Consumer_inv ex_world1 0"
  by (simp add: Consumer_inv_def Consumer_ok_def ex_world1_def)

text \<open>
  C5. \<open>Close\<close> is idempotent on the consumer and on the registry. For every valid consumer
  pointer and every state, calling \<open>Close\<close> any positive number of times gives the state
  that one call gives, and a second call changes nothing; after it the closed flag is set,
  and the socket map is empty whenever the consumer satisfied its invariant before (as
  every consumer of a reachable state does). For every registry and every state, calling
  the registry's \<open>Close\<close> any positive number of times gives what one call gives, the
  collection is empty afterwards, and a second call changes nothing. \<open>Close\<close> returns no
  value, so there is no error to return.
\<close>

theorem Close_idempotent:
  assumes "r < length (heap w)" and "0 < n"
  shows "(Consumer_Close r ^^ n) w = Consumer_Close r w \<and>
         Consumer_Close r (Consumer_Close r w) = Consumer_Close r w \<and>
         closed (heap (Consumer_Close r w) ! r) \<and>
         (Consumer_inv w r \<longrightarrow> ipv4PacketConns (heap (Consumer_Close r w) ! r) = []) \<and>
         ((\<lambda>(w, l). Listener_Close l w) ^^ n) (v, l) = Listener_Close l v \<and>
         Listener_Close (snd (Listener_Close l v)) (fst (Listener_Close l v)) =
           Listener_Close l v \<and>
         consumers (snd (Listener_Close l v)) = []"
proof -
  have a: "(Consumer_Close r ^^ n) w = Consumer_Close r w"
    using assms by (simp add: funpow_idem Consumer_Close_idem)
  have b: "Consumer_inv w r \<longrightarrow> ipv4PacketConns (heap (Consumer_Close r w) ! r) = []"
    using assms(1)
    by (cases "closed (heap w ! r)")
       (simp_all add: Consumer_Close_when_closed Consumer_inv_def Consumer_ok_def
          Consumer_Close_releases)
  have c: "((\<lambda>(w, l). Listener_Close l w) ^^ n) (v, l) = Listener_Close l v"
    using funpow_idem [OF Listener_Close_twice assms(2), of v l] by simp
  have d: "Listener_Close (snd (Listener_Close l v)) (fst (Listener_Close l v)) =
             Listener_Close l v"
    by (simp add: Listener_Close_def)
  have e: "consumers (snd (Listener_Close l v)) = []"
    by (simp add: Listener_Close_def)
  have f: "Consumer_Close r (Consumer_Close r w) = Consumer_Close r w"
    using assms(1) by (rule Consumer_Close_idem)
  have g: "closed (heap (Consumer_Close r w) ! r)"
    using assms(1) by (rule Consumer_Close_closed)
  show ?thesis
    by (intro conjI a f g b c d e)
qed

theorem Close_idempotent_witness:
  "0 < length (heap ex_world1) \<and> (0::nat) < 3 \<and> Consumer_inv ex_world1 0 \<and>
   (Consumer_Close 0 ^^ 3) ex_world1 = Consumer_Close 0 ex_world1 \<and>
   Consumer_Close 0 ex_world1 = ex_world2 \<and>
   closed (heap (Consumer_Close 0 ex_world1) ! 0) \<and>
   ipv4PacketConns (heap (Consumer_Close 0 ex_world1) ! 0) = [] \<and>
   ((\<lambda>(w, l). Listener_Close l w) ^^ 3) (ex_world3, ex_listener) =
     Listener_Close ex_listener ex_world3 \<and>
   consumers (snd (Listener_Close ex_listener ex_world3)) = []"
proof -
  have h1: "0 < length (heap ex_world1)"
    by (simp add: ex_world1_def)
  have h2: "(0::nat) < 3"
    by simp
  note t = Close_idempotent [OF h1 h2, of ex_world3 ex_listener]
  from t have a: "(Consumer_Close 0 ^^ 3) ex_world1 = Consumer_Close 0 ex_world1"
    by (elim conjE)
  from t have b: "closed (heap (Consumer_Close 0 ex_world1) ! 0)"
    by (elim conjE)
  from t ex_inv1 have c: "ipv4PacketConns (heap (Consumer_Close 0 ex_world1) ! 0) = []"
    by (elim conjE impE)
  from t have d: "((\<lambda>(w, l). Listener_Close l w) ^^ 3) (ex_world3, ex_listener) =
     Listener_Close ex_listener ex_world3"
    by (elim conjE)
  from t have e: "consumers (snd (Listener_Close ex_listener ex_world3)) = []"
    by (elim conjE)
  show ?thesis
    by (intro conjI h1 h2 ex_inv1 a ex_Close b c d e)
qed

text \<open>
  C7. The registry's \<open>Close\<close> leaves the collection empty, so that \<open>Consumers\<close> returns an
  empty snapshot, and closes every consumer that was in the collection: afterwards each of
  them has its closed flag set; one that was closed already is left exactly as it was; one
  that was open has an empty socket map and every socket of its former map is closed.
\<close>

theorem Listener_Close_closes_all:
  assumes "\<forall>r\<in>set (consumers l). r < length (heap w)"
  shows "consumers (snd (Listener_Close l w)) = [] \<and>
         Listener_Consumers (snd (Listener_Close l w)) = [] \<and>
         (\<forall>r\<in>set (consumers l).
            closed (heap (fst (Listener_Close l w)) ! r) \<and>
            (closed (heap w ! r) \<longrightarrow> heap (fst (Listener_Close l w)) ! r = heap w ! r) \<and>
            (\<not> closed (heap w ! r) \<longrightarrow>
               ipv4PacketConns (heap (fst (Listener_Close l w)) ! r) = [] \<and>
               (\<forall>(i, pc)\<in>set (ipv4PacketConns (heap w ! r)).
                  pc < length (socks w) \<longrightarrow> \<not> socks (fst (Listener_Close l w)) ! pc)))"
  using assms
  by (simp add: Listener_Close_def Listener_Consumers_def fold_Close_closes
        fold_Close_keeps_closed fold_Close_releases)

theorem Listener_Close_closes_all_witness:
  "consumers ex_listener = [0, 1] \<and> length (heap ex_world3) = 2 \<and>
   \<not> closed (heap ex_world3 ! 0) \<and> closed (heap ex_world3 ! 1) \<and>
   Listener_Consumers (snd (Listener_Close ex_listener ex_world3)) = [] \<and>
   closed (heap (fst (Listener_Close ex_listener ex_world3)) ! 0) \<and>
   ipv4PacketConns (heap (fst (Listener_Close ex_listener ex_world3)) ! 0) = [] \<and>
   \<not> socks (fst (Listener_Close ex_listener ex_world3)) ! 0 \<and>
   closed (heap (fst (Listener_Close ex_listener ex_world3)) ! 1) \<and>
   heap (fst (Listener_Close ex_listener ex_world3)) ! 1 = heap ex_world3 ! 1"
proof -
  have h: "\<forall>r\<in>set (consumers ex_listener). r < length (heap ex_world3)"
    by (simp add: ex_listener_def ex_world3_def)
  have o: "\<not> closed (heap ex_world3 ! 0)" and c: "closed (heap ex_world3 ! 1)"
    by (simp_all add: ex_world3_def)
  have m: "(1, 0) \<in> set (ipv4PacketConns (heap ex_world3 ! 0))" "0 < length (socks ex_world3)"
    by (simp_all add: ex_world3_def)
  have i0: "0 \<in> set (consumers ex_listener)" and i1: "1 \<in> set (consumers ex_listener)"
    by (simp_all add: ex_listener_def)
  note t = Listener_Close_closes_all [OF h]
  from t have e: "Listener_Consumers (snd (Listener_Close ex_listener ex_world3)) = []"
    by (elim conjE)
  from t have q: "\<forall>r\<in>set (consumers ex_listener).
            closed (heap (fst (Listener_Close ex_listener ex_world3)) ! r) \<and>
            (closed (heap ex_world3 ! r) \<longrightarrow>
               heap (fst (Listener_Close ex_listener ex_world3)) ! r = heap ex_world3 ! r) \<and>
            (\<not> closed (heap ex_world3 ! r) \<longrightarrow>
               ipv4PacketConns (heap (fst (Listener_Close ex_listener ex_world3)) ! r) = [] \<and>
               (\<forall>(i, pc)\<in>set (ipv4PacketConns (heap ex_world3 ! r)).
                  pc < length (socks ex_world3) \<longrightarrow>
                  \<not> socks (fst (Listener_Close ex_listener ex_world3)) ! pc))"
    by (elim conjE)
  from q i0 o have a0: "closed (heap (fst (Listener_Close ex_listener ex_world3)) ! 0)"
    and a1: "ipv4PacketConns (heap (fst (Listener_Close ex_listener ex_world3)) ! 0) = []"
    and a2: "\<forall>(i, pc)\<in>set (ipv4PacketConns (heap ex_world3 ! 0)).
                  pc < length (socks ex_world3) \<longrightarrow>
                  \<not> socks (fst (Listener_Close ex_listener ex_world3)) ! pc"
    by blast+
  from a2 m have a3: "\<not> socks (fst (Listener_Close ex_listener ex_world3)) ! 0"
    by blast
  from q i1 c have b0: "closed (heap (fst (Listener_Close ex_listener ex_world3)) ! 1)"
    and b1: "heap (fst (Listener_Close ex_listener ex_world3)) ! 1 = heap ex_world3 ! 1"
    by blast+
  have k: "consumers ex_listener = [0, 1]" "length (heap ex_world3) = 2"
    by (simp_all add: ex_listener_def ex_world3_def)
  show ?thesis
    by (intro conjI k o c e a0 a1 a3 b0 b1)
qed

section \<open>Removing a consumer from the registry\<close>

text \<open>
  C2 as stated fails: a consumer that is not in the collection is closed all the same.
  Here the registry is empty and the consumer behind pointer 0 was constructed directly;
  \<open>RemoveConsumer\<close> sets its closed flag and closes its socket.
\<close>

theorem RemoveConsumer_closes_foreign_consumer:
  "0 \<notin> set (consumers (NewListener [ex_lo])) \<and>
   \<not> closed (heap ex_world1 ! 0) \<and> socks ex_world1 = [True] \<and>
   closed (heap (fst (RemoveConsumer (NewListener [ex_lo]) 0 ex_world1)) ! 0) \<and>
   socks (fst (RemoveConsumer (NewListener [ex_lo]) 0 ex_world1)) = [False]"
  by (simp add: NewListener_def RemoveConsumer_def Consumer_Close_def ex_defs pc_Close_def)

text \<open>
  C2, amended. \<open>RemoveConsumer\<close> always closes the passed consumer, exactly as its \<open>Close\<close>
  does (which changes nothing when the consumer is closed already). When the pointer is
  not in the collection, the registry is unchanged. When it is, its first occurrence is
  removed, so the collection has one entry fewer.
\<close>

theorem RemoveConsumer_effect:
  "fst (RemoveConsumer l r w) = Consumer_Close r w \<and>
   lifis (snd (RemoveConsumer l r w)) = lifis l \<and>
   (r \<notin> set (consumers l) \<longrightarrow> snd (RemoveConsumer l r w) = l) \<and>
   (r \<in> set (consumers l) \<longrightarrow>
      consumers (snd (RemoveConsumer l r w)) = remove1 r (consumers l) \<and>
      Suc (length (consumers (snd (RemoveConsumer l r w)))) = length (consumers l))"
  by (simp add: RemoveConsumer_def Let_def remove_loop_absent remove_loop_present)
     (simp add: remove_loop_remove1)

theorem RemoveConsumer_effect_witness:
  "2 \<notin> set (consumers ex_listener) \<and>
   snd (RemoveConsumer ex_listener 2 ex_world3) = ex_listener \<and>
   0 \<in> set (consumers ex_listener) \<and>
   consumers (snd (RemoveConsumer ex_listener 0 ex_world3)) = [1] \<and>
   fst (RemoveConsumer ex_listener 0 ex_world3) = Consumer_Close 0 ex_world3"
proof -
  have h1: "2 \<notin> set (consumers ex_listener)" and h2: "0 \<in> set (consumers ex_listener)"
    by (simp_all add: ex_listener_def)
  have r: "remove1 0 (consumers ex_listener) = [1]"
    by (simp add: ex_listener_def)
  show ?thesis
    using h1 h2 r RemoveConsumer_effect [of ex_listener 2 ex_world3]
      RemoveConsumer_effect [of ex_listener 0 ex_world3]
    by simp
qed

section \<open>Construction when no interface is multicast-capable\<close>

text \<open>
  C3 as stated fails: constructed with one interface that lacks the multicast flag, the
  consumer reports that interface, not an empty list.
\<close>

theorem Interfaces_not_empty_without_multicast:
  "Flags ex_eth AND FlagMulticast = 0 \<and>
   NewConsumer os_ok ex_group [ex_eth] 7 ex_world =
     (ex_world\<lparr>heap := [\<lparr>addr = ex_group, cb = 7, ifis = [ex_eth], ipv4PacketConns = [],
                          closed = False\<rparr>]\<rparr>, Inr 0) \<and>
   Consumer_Interfaces 0
     (ex_world\<lparr>heap := [\<lparr>addr = ex_group, cb = 7, ifis = [ex_eth], ipv4PacketConns = [],
                          closed = False\<rparr>]\<rparr>) = [ex_eth] \<and>
   [ex_eth] \<noteq> []"
  by (simp add: ex_defs run_defs Consumer_Interfaces_def)

text \<open>
  C3, amended. When the address is multicast and no supplied interface has the multicast
  flag, construction succeeds whatever the operating system would answer; the new
  consumer has an empty socket map, no socket was opened and no receive loop started, and
  \<open>Interfaces\<close> reports the interface list exactly as it was supplied.
\<close>

theorem NewConsumer_without_multicast_interface:
  assumes "IsMulticast (IP a)" and "\<forall>i\<in>set is. Flags i AND FlagMulticast = 0"
  shows "NewConsumer os a is f w =
           (w\<lparr>heap := heap w @
                [\<lparr>addr = a, cb = f, ifis = is, ipv4PacketConns = [], closed = False\<rparr>]\<rparr>,
            Inr (length (heap w))) \<and>
         Consumer_Interfaces (length (heap w)) (fst (NewConsumer os a is f w)) = is \<and>
         ipv4PacketConns (heap (fst (NewConsumer os a is f w)) ! length (heap w)) = [] \<and>
         socks (fst (NewConsumer os a is f w)) = socks w \<and>
         loops (fst (NewConsumer os a is f w)) = loops w"
  using assms
  by (simp add: NewConsumer_def Let_def start_def start_loop_skip Consumer_Interfaces_def)

theorem NewConsumer_without_multicast_interface_witness:
  "IsMulticast (IP ex_group) \<and> Flags ex_eth AND FlagMulticast = 0 \<and>
   NewConsumer os_no_join ex_group [ex_eth] 7 ex_world =
     (ex_world\<lparr>heap := [\<lparr>addr = ex_group, cb = 7, ifis = [ex_eth], ipv4PacketConns = [],
                          closed = False\<rparr>]\<rparr>, Inr 0) \<and>
   Consumer_Interfaces 0 (fst (NewConsumer os_no_join ex_group [ex_eth] 7 ex_world)) = [ex_eth]"
proof -
  have h1: "IsMulticast (IP ex_group)"
    by (simp add: ex_group_def IsMulticast_def To4_def)
  have h2: "\<forall>i\<in>set [ex_eth]. Flags i AND FlagMulticast = 0"
    by (simp add: ex_eth_def FlagMulticast_def)
  have e: "heap ex_world = []"
    by (simp add: ex_world_def)
  show ?thesis
    using h1 h2 NewConsumer_without_multicast_interface [OF h1 h2, of os_no_join 7 ex_world]
    by (simp add: e Consumer_Interfaces_def)
qed

section \<open>The invariant holds in every reachable state\<close>

lemma Heap_ok_disjoint:
  "Heap_ok ss hp \<Longrightarrow> q < length hp \<Longrightarrow> q' < length hp \<Longrightarrow> q \<noteq> q' \<Longrightarrow>
     handles (hp ! q) \<inter> handles (hp ! q') = {}"
  unfolding Heap_ok_def by blast

lemma Heap_ok_consumer:
  "Heap_ok ss hp \<Longrightarrow> q < length hp \<Longrightarrow> Consumer_ok ss (hp ! q)"
  unfolding Heap_ok_def by blast

lemma Heap_okI:
  "(\<And>q. q < length hp \<Longrightarrow> Consumer_ok ss (hp ! q)) \<Longrightarrow>
   (\<And>q q'. q < length hp \<Longrightarrow> q' < length hp \<Longrightarrow> q \<noteq> q' \<Longrightarrow>
      handles (hp ! q) \<inter> handles (hp ! q') = {}) \<Longrightarrow>
   Heap_ok ss hp"
  unfolding Heap_ok_def by blast

lemma Consumer_ok_handles:
  "Consumer_ok ss c \<Longrightarrow> h \<in> handles c \<Longrightarrow> h < length ss \<and> ss ! h"
  by (auto simp: Consumer_ok_def handles_def list_all_iff)

lemma Consumer_ok_grow: "Consumer_ok ss c \<Longrightarrow> Consumer_ok (ss @ xs) c"
  by (auto simp: Consumer_ok_def list_all_iff nth_append)

lemma Consumer_ok_empty: "ipv4PacketConns c = [] \<Longrightarrow> Consumer_ok ss c"
  by (simp add: Consumer_ok_def)

lemma Heap_ok_grow: "Heap_ok ss hp \<Longrightarrow> Heap_ok (ss @ xs) hp"
  unfolding Heap_ok_def by (blast intro: Consumer_ok_grow)

lemma Consumer_ok_after_close:
  assumes "Consumer_ok ss c" and "handles c \<inter> snd ` set m = {}"
  shows "Consumer_ok (fold (\<lambda>(i, pc). pc_Close pc) m ss) c"
proof -
  have "pc < length ss \<and> fold (\<lambda>(i, pc). pc_Close pc) m ss ! pc"
    if "(i, pc) \<in> set (ipv4PacketConns c)" for i pc
  proof -
    from that have h: "pc \<in> handles c"
      by (force simp: handles_def)
    with assms(1) have "pc < length ss \<and> ss ! pc"
      by (rule Consumer_ok_handles)
    moreover from h assms(2) have "pc \<notin> snd ` set m"
      by blast
    ultimately show ?thesis
      by (simp add: close_all_nth)
  qed
  then have "list_all (\<lambda>(i, pc). pc < length (fold (\<lambda>(i, pc). pc_Close pc) m ss) \<and>
                fold (\<lambda>(i, pc). pc_Close pc) m ss ! pc) (ipv4PacketConns c)"
    unfolding list_all_iff by auto
  with assms(1) show ?thesis
    by (simp add: Consumer_ok_def)
qed

lemma Heap_ok_release:
  assumes inv: "Heap_ok ss hp" and r: "r < length hp" and e: "ipv4PacketConns c' = []"
  shows "Heap_ok (fold (\<lambda>(i, pc). pc_Close pc) (ipv4PacketConns (hp ! r)) ss) (hp[r := c'])"
proof (rule Heap_okI)
  fix q
  assume q: "q < length (hp[r := c'])"
  show "Consumer_ok (fold (\<lambda>(i, pc). pc_Close pc) (ipv4PacketConns (hp ! r)) ss) (hp[r := c'] ! q)"
  proof (cases "q = r")
    case True
    with r e show ?thesis by (simp add: Consumer_ok_empty)
  next
    case False
    have "handles (hp ! q) \<inter> handles (hp ! r) = {}"
      using q r False by (intro Heap_ok_disjoint [OF inv]) simp_all
    then have "Consumer_ok (fold (\<lambda>(i, pc). pc_Close pc) (ipv4PacketConns (hp ! r)) ss) (hp ! q)"
      using q by (intro Consumer_ok_after_close Heap_ok_consumer [OF inv]) (simp_all add: handles_def)
    with False show ?thesis by simp
  qed
next
  fix q q'
  assume qq: "q < length (hp[r := c'])" "q' < length (hp[r := c'])" "q \<noteq> q'"
  have he: "handles c' = {}"
    using e by (simp add: handles_def)
  have "handles (hp ! q) \<inter> handles (hp ! q') = {}"
    using qq by (intro Heap_ok_disjoint [OF inv]) simp_all
  then show "handles (hp[r := c'] ! q) \<inter> handles (hp[r := c'] ! q') = {}"
    using r he by (cases "q = r"; cases "q' = r") simp_all
qed

lemma set_update_subset: "set (AList.update k v al) \<subseteq> insert (k, v) (set al)"
  by (induction al) auto

lemma handles_update:
  "handles (c\<lparr>ipv4PacketConns := AList.update k v (ipv4PacketConns c)\<rparr>) \<subseteq> insert v (handles c)"
  using set_update_subset [of k v "ipv4PacketConns c"] by (force simp: handles_def)

lemma disjoint_insert: "M \<subseteq> insert n R \<Longrightarrow> R \<inter> P = {} \<Longrightarrow> n \<notin> P \<Longrightarrow> M \<inter> P = {}"
  by blast

lemma Consumer_ok_store:
  assumes "Consumer_ok ss c" and "\<not> closed c"
  shows "Consumer_ok (ss @ [True]) (c\<lparr>ipv4PacketConns := AList.update k (length ss) (ipv4PacketConns c)\<rparr>)"
proof -
  have g: "Consumer_ok (ss @ [True]) c"
    using assms(1) by (rule Consumer_ok_grow)
  have "pc < length (ss @ [True]) \<and> (ss @ [True]) ! pc"
    if "(i, pc) \<in> set (AList.update k (length ss) (ipv4PacketConns c))" for i pc
  proof -
    from that have "(i, pc) = (k, length ss) \<or> (i, pc) \<in> set (ipv4PacketConns c)"
      using set_update_subset [of k "length ss" "ipv4PacketConns c"] by auto
    then show ?thesis
    proof
      assume "(i, pc) = (k, length ss)"
      then show ?thesis by simp
    next
      assume "(i, pc) \<in> set (ipv4PacketConns c)"
      then have "pc \<in> handles c" by (force simp: handles_def)
      with g show ?thesis by (rule Consumer_ok_handles)
    qed
  qed
  then have "list_all (\<lambda>(i, pc). pc < length (ss @ [True]) \<and> (ss @ [True]) ! pc)
               (AList.update k (length ss) (ipv4PacketConns c))"
    unfolding list_all_iff by auto
  moreover have "distinct (map fst (AList.update k (length ss) (ipv4PacketConns c)))"
    using assms(1) by (simp add: Consumer_ok_def distinct_update)
  ultimately show ?thesis
    using assms(2) by (simp add: Consumer_ok_def)
qed

lemma Heap_ok_store:
  assumes inv: "Heap_ok ss hp" and r: "r < length hp" and o: "\<not> closed (hp ! r)"
  shows "Heap_ok (ss @ [True])
           (hp[r := (hp ! r)\<lparr>ipv4PacketConns := AList.update k (length ss) (ipv4PacketConns (hp ! r))\<rparr>])"
    (is "Heap_ok _ (hp[r := ?c])")
proof (rule Heap_okI)
  fix q
  assume q: "q < length (hp[r := ?c])"
  show "Consumer_ok (ss @ [True]) (hp[r := ?c] ! q)"
  proof (cases "q = r")
    case True
    have "Consumer_ok (ss @ [True]) ?c"
      using Heap_ok_consumer [OF inv r] o by (rule Consumer_ok_store)
    with True r show ?thesis by simp
  next
    case False
    have "Consumer_ok (ss @ [True]) (hp ! q)"
      using q by (intro Consumer_ok_grow Heap_ok_consumer [OF inv]) simp
    with False show ?thesis by simp
  qed
next
  fix q q'
  assume qq: "q < length (hp[r := ?c])" "q' < length (hp[r := ?c])" "q \<noteq> q'"
  have fresh: "length ss \<notin> handles (hp ! p)" if "p < length hp" for p
    using Consumer_ok_handles [OF Heap_ok_consumer [OF inv that], of "length ss"] by auto
  have C: "handles ?c \<inter> handles (hp ! p) = {}" if p: "p < length hp" "p \<noteq> r" for p
  proof (rule disjoint_insert [OF handles_update])
    show "handles (hp ! r) \<inter> handles (hp ! p) = {}"
      using p by (intro Heap_ok_disjoint [OF inv r]) simp_all
    show "length ss \<notin> handles (hp ! p)"
      using p(1) by (rule fresh)
  qed
  show "handles (hp[r := ?c] ! q) \<inter> handles (hp[r := ?c] ! q') = {}"
  proof (cases "q = r")
    case True
    with qq have n: "q' \<noteq> r" by simp
    have "handles ?c \<inter> handles (hp ! q') = {}"
      using qq n by (intro C) simp_all
    with True n r show ?thesis by simp
  next
    case False
    show ?thesis
    proof (cases "q' = r")
      case True
      have "handles ?c \<inter> handles (hp ! q) = {}"
        using qq False by (intro C) simp_all
      then have "handles (hp ! q) \<inter> handles ?c = {}"
        by (simp only: Int_commute)
      with True False r show ?thesis by simp
    next
      case False
      have "handles (hp ! q) \<inter> handles (hp ! q') = {}"
        using qq by (intro Heap_ok_disjoint [OF inv]) simp_all
      with False \<open>q \<noteq> r\<close> show ?thesis by simp
    qed
  qed
qed

lemma Heap_ok_alloc:
  assumes "Heap_ok ss hp" and "ipv4PacketConns c = []"
  shows "Heap_ok ss (hp @ [c])"
proof (rule Heap_okI)
  fix q
  assume "q < length (hp @ [c])"
  then show "Consumer_ok ss ((hp @ [c]) ! q)"
    using assms by (cases "q < length hp") (simp_all add: nth_append Heap_ok_consumer Consumer_ok_empty)
next
  fix q q'
  assume qq: "q < length (hp @ [c])" "q' < length (hp @ [c])" "q \<noteq> q'"
  have e: "handles c = {}"
    using assms(2) by (simp add: handles_def)
  show "handles ((hp @ [c]) ! q) \<inter> handles ((hp @ [c]) ! q') = {}"
  proof (cases "q < length hp \<and> q' < length hp")
    case True
    then show ?thesis
      using qq(3) by (simp add: nth_append Heap_ok_disjoint [OF assms(1)])
  next
    case False
    with qq have "q = length hp \<or> q' = length hp" by auto
    then show ?thesis
      using e by (auto simp: nth_append)
  qed
qed

lemma World_inv_initial: "World_inv ex_world"
  by (simp add: World_inv_def Heap_ok_def ex_world_def)

lemma World_inv_Close:
  "World_inv w \<Longrightarrow> r < length (heap w) \<Longrightarrow> World_inv (Consumer_Close r w)"
  by (simp add: Consumer_Close_def Let_def World_inv_def Heap_ok_release)

lemma World_inv_cleanup:
  "World_inv w \<Longrightarrow> r < length (heap w) \<Longrightarrow> World_inv (cleanup r w)"
  by (simp add: cleanup_def Let_def World_inv_def Heap_ok_release)

lemma cleanup_heap:
  "length (heap (cleanup r w)) = length (heap w) \<and>
   (\<forall>q. q \<noteq> r \<longrightarrow> heap (cleanup r w) ! q = heap w ! q) \<and>
   same_but_conns (heap w ! r) (heap (cleanup r w) ! r)"
  by (cases "r < length (heap w)")
     (simp_all add: cleanup_def Let_def list_update_beyond same_but_conns_def)

lemma openPacketConn_cases:
  assumes "openPacketConn os r ifi w = (w1, res)"
  obtains (no_socket) e where "w1 = w" "res = Inl e"
  | (closed_again) e where "w1 = w\<lparr>socks := socks w @ [False]\<rparr>" "res = Inl e"
  | (opened) "w1 = w\<lparr>socks := socks w @ [True]\<rparr>" "res = Inr (length (socks w))"
  using assms
  by (auto simp: openPacketConn_def Let_def pc_Close_def split: option.splits)

lemma start_loop_Cons_cases:
  assumes "start_loop os r (ifi # rest) w = (w', res)"
  obtains (skip) "Flags ifi AND FlagMulticast = 0" "start_loop os r rest w = (w', res)"
  | (open_failed) w1 e where "Flags ifi AND FlagMulticast \<noteq> 0"
      "openPacketConn os r ifi w = (w1, Inl e)" "w' = cleanup r w1"
      "res = Some (OpenSocketFailed (Name ifi) e)"
  | (setup_failed) w1 pc e where "Flags ifi AND FlagMulticast \<noteq> 0"
      "openPacketConn os r ifi w = (w1, Inr pc)" "w' = cleanup r w1"
      "res = Some (SetControlMessageFailed (Name ifi) (OSError e)) \<or>
       res = Some (JoinGroupFailed (addr (heap w1 ! r)) (Name ifi) (OSError e))"
  | (joined) w1 pc where "Flags ifi AND FlagMulticast \<noteq> 0"
      "openPacketConn os r ifi w = (w1, Inr pc)"
      "start_loop os r rest
         (w1\<lparr>heap := (heap w1)[r := (heap w1 ! r)\<lparr>ipv4PacketConns :=
                  AList.update (Index ifi) pc (ipv4PacketConns (heap w1 ! r))\<rparr>],
              loops := loops w1 @ [(r, pc, ifi)]\<rparr>) = (w', res)"
proof (cases "Flags ifi AND FlagMulticast = 0")
  case True
  with assms that(1) show ?thesis by simp
next
  case False
  obtain w1 ro where o: "openPacketConn os r ifi w = (w1, ro)"
    by (cases "openPacketConn os r ifi w")
  show ?thesis
  proof (cases ro)
    case (Inl e)
    with assms False o that(2) show ?thesis by simp
  next
    case (Inr pc)
    show ?thesis
    proof (cases "os SysSetControlMessage ifi w1")
      case (Some e)
      with assms False o Inr that(3) show ?thesis by auto
    next
      case None
      show ?thesis
      proof (cases "os SysJoinGroup ifi w1")
        case (Some e)
        with assms False o Inr None that(3) show ?thesis by auto
      next
        case n: None
        with assms False o Inr None that(4) show ?thesis by (simp add: Let_def)
      qed
    qed
  qed
qed

lemma start_loop_World_inv:
  "start_loop os r is w = (w', res) \<Longrightarrow> World_inv w \<Longrightarrow> r < length (heap w) \<Longrightarrow>
   \<not> closed (heap w ! r) \<Longrightarrow> World_inv w'"
proof (induction "is" arbitrary: w)
  case Nil
  then show ?case by simp
next
  case (Cons ifi rest)
  from Cons.prems(1) show ?case
  proof (cases rule: start_loop_Cons_cases)
    case skip
    with Cons show ?thesis by blast
  next
    case (open_failed w1 e)
    from open_failed(2) have "World_inv w1 \<and> heap w1 = heap w"
      using Cons.prems(2)
      by (cases rule: openPacketConn_cases) (simp_all add: World_inv_def Heap_ok_grow)
    with open_failed(3) Cons.prems(3) show ?thesis
      by (simp add: World_inv_cleanup)
  next
    case (setup_failed w1 pc e)
    from setup_failed(2) have "World_inv w1 \<and> heap w1 = heap w"
      using Cons.prems(2)
      by (cases rule: openPacketConn_cases) (simp_all add: World_inv_def Heap_ok_grow)
    with setup_failed(3) Cons.prems(3) show ?thesis
      by (simp add: World_inv_cleanup)
  next
    case (joined w1 pc)
    let ?w3 = "w1\<lparr>heap := (heap w1)[r := (heap w1 ! r)\<lparr>ipv4PacketConns :=
                  AList.update (Index ifi) pc (ipv4PacketConns (heap w1 ! r))\<rparr>],
              loops := loops w1 @ [(r, pc, ifi)]\<rparr>"
    from joined(2) have w1: "w1 = w\<lparr>socks := socks w @ [True]\<rparr>" and pc: "pc = length (socks w)"
      by (cases rule: openPacketConn_cases; simp)+
    have "Heap_ok (socks w @ [True])
            ((heap w)[r := (heap w ! r)\<lparr>ipv4PacketConns :=
                  AList.update (Index ifi) (length (socks w)) (ipv4PacketConns (heap w ! r))\<rparr>])"
      using Cons.prems(2,3,4) unfolding World_inv_def by (rule Heap_ok_store)
    then have "World_inv ?w3"
      by (simp add: World_inv_def w1 pc)
    moreover have "r < length (heap ?w3)" "\<not> closed (heap ?w3 ! r)"
      using Cons.prems(3,4) by (simp_all add: w1)
    ultimately show ?thesis
      using Cons.IH [OF joined(3)] by blast
  qed
qed

lemma start_loop_heap_frame:
  "start_loop os r is w = (w', res) \<Longrightarrow>
     length (heap w') = length (heap w) \<and>
     (\<forall>q. q \<noteq> r \<longrightarrow> heap w' ! q = heap w ! q) \<and>
     same_but_conns (heap w ! r) (heap w' ! r)"
proof (induction "is" arbitrary: w)
  case Nil
  then show ?case by (simp add: same_but_conns_def)
next
  case (Cons ifi rest)
  from Cons.prems(1) show ?case
  proof (cases rule: start_loop_Cons_cases)
    case skip
    with Cons show ?thesis by blast
  next
    case (open_failed w1 e)
    from open_failed(2) have "heap w1 = heap w"
      by (cases rule: openPacketConn_cases) simp_all
    with open_failed(3) show ?thesis
      using cleanup_heap [of r w1] by simp
  next
    case (setup_failed w1 pc e)
    from setup_failed(2) have "heap w1 = heap w"
      by (cases rule: openPacketConn_cases) simp_all
    with setup_failed(3) show ?thesis
      using cleanup_heap [of r w1] by simp
  next
    case (joined w1 pc)
    let ?w3 = "w1\<lparr>heap := (heap w1)[r := (heap w1 ! r)\<lparr>ipv4PacketConns :=
                  AList.update (Index ifi) pc (ipv4PacketConns (heap w1 ! r))\<rparr>],
              loops := loops w1 @ [(r, pc, ifi)]\<rparr>"
    from joined(2) have h: "heap w1 = heap w"
      by (cases rule: openPacketConn_cases) simp_all
    have a: "length (heap w') = length (heap ?w3) \<and>
     (\<forall>q. q \<noteq> r \<longrightarrow> heap w' ! q = heap ?w3 ! q) \<and>
     same_but_conns (heap ?w3 ! r) (heap w' ! r)"
      using joined(3) by (rule Cons.IH)
    have b: "same_but_conns (heap w ! r) (heap ?w3 ! r)"
      by (cases "r < length (heap w)") (simp_all add: h list_update_beyond same_but_conns_def)
    have "same_but_conns (heap w ! r) (heap w' ! r)"
      using a b by (simp add: same_but_conns_def)
    with a show ?thesis
      by (simp add: h)
  qed
qed

lemma NewConsumer_World_inv:
  assumes "NewConsumer os a is f w = (w', res)" and "World_inv w"
  shows "World_inv w'"
proof (cases "IsMulticast (IP a)")
  case False
  with assms show ?thesis by (simp add: NewConsumer_def)
next
  case True
  let ?c = "\<lparr>addr = a, cb = f, ifis = is, ipv4PacketConns = [], closed = False\<rparr>"
  let ?w1 = "w\<lparr>heap := heap w @ [?c]\<rparr>"
  obtain w2 ro where s: "start_loop os (length (heap w)) is ?w1 = (w2, ro)"
    by (cases "start_loop os (length (heap w)) is ?w1")
  have "World_inv ?w1"
    using assms(2) by (simp add: World_inv_def Heap_ok_alloc)
  with s have "World_inv w2"
    by (rule start_loop_World_inv) simp_all
  moreover have "w' = w2"
    using assms(1) True s by (simp add: NewConsumer_def Let_def start_def split: option.splits)
  ultimately show ?thesis by simp
qed

lemma NewConsumer_heap_frame:
  assumes "NewConsumer os a is f w = (w', res)" and "q < length (heap w)"
  shows "q < length (heap w') \<and> heap w' ! q = heap w ! q"
proof (cases "IsMulticast (IP a)")
  case False
  with assms show ?thesis by (simp add: NewConsumer_def)
next
  case True
  let ?c = "\<lparr>addr = a, cb = f, ifis = is, ipv4PacketConns = [], closed = False\<rparr>"
  let ?w1 = "w\<lparr>heap := heap w @ [?c]\<rparr>"
  obtain w2 ro where s: "start_loop os (length (heap w)) is ?w1 = (w2, ro)"
    by (cases "start_loop os (length (heap w)) is ?w1")
  have w': "w' = w2"
    using assms(1) True s by (simp add: NewConsumer_def Let_def start_def split: option.splits)
  from start_loop_heap_frame [OF s] assms(2) have "q < length (heap w2) \<and> heap w2 ! q = heap ?w1 ! q"
    by simp
  with assms(2) w' show ?thesis
    by (simp add: nth_append)
qed

lemma readLoop_iter_frame:
  "readLoop_iter r pc ifi buf rd w = (st, w') \<Longrightarrow>
     heap w' = heap w \<and> socks w' = socks w \<and> loops w' = loops w"
  by (auto simp: readLoop_iter_def Let_def split: read_result.splits option.splits if_splits)

lemma perform_World_inv: "World_inv w \<Longrightarrow> World_inv (perform os act w)"
proof (cases act)
  case (ActNewConsumer a "is" f)
  assume i: "World_inv w"
  obtain w' res where n: "NewConsumer os a is f w = (w', res)"
    by (cases "NewConsumer os a is f w")
  from n i have "World_inv w'"
    by (rule NewConsumer_World_inv)
  with n ActNewConsumer show ?thesis by simp
next
  case (ActClose r)
  assume "World_inv w"
  then show ?thesis
    using ActClose by (simp add: World_inv_Close)
next
  case (ActReceive r pc ifi buf rd)
  assume i: "World_inv w"
  obtain st w' where n: "readLoop_iter r pc ifi buf rd w = (st, w')"
    by (cases "readLoop_iter r pc ifi buf rd w")
  from readLoop_iter_frame [OF n] i have "World_inv w'"
    by (simp add: World_inv_def)
  with n i ActReceive show ?thesis by simp
qed

lemma run_World_inv: "World_inv w \<Longrightarrow> World_inv (run os acts w)"
  unfolding run_def by (induction acts arbitrary: w) (simp_all add: perform_World_inv)

lemma perform_keeps_closed:
  assumes "q < length (heap w)"
  shows "q < length (heap (perform os act w)) \<and>
         (closed (heap w ! q) \<longrightarrow> closed (heap (perform os act w) ! q))"
proof (cases act)
  case (ActNewConsumer a "is" f)
  obtain w' res where n: "NewConsumer os a is f w = (w', res)"
    by (cases "NewConsumer os a is f w")
  from NewConsumer_heap_frame [OF n assms] n ActNewConsumer show ?thesis by simp
next
  case (ActClose r)
  then show ?thesis
    using assms
    by (cases "q = r") (auto simp: Consumer_Close_closed Consumer_Close_other)
next
  case (ActReceive r pc ifi buf rd)
  obtain st w' where n: "readLoop_iter r pc ifi buf rd w = (st, w')"
    by (cases "readLoop_iter r pc ifi buf rd w")
  from readLoop_iter_frame [OF n] n assms ActReceive show ?thesis by simp
qed

lemma ex_run1: "run os_ok [ActNewConsumer ex_group [ex_lo] 7] ex_world = ex_world1"
  by (simp add: run_def ex_NewConsumer)

lemma ex_run2: "run os_ok [ActNewConsumer ex_group [ex_lo] 7, ActClose 0] ex_world = ex_world2"
  by (simp add: run_def ex_NewConsumer ex_Close) (simp add: ex_world1_def)

text \<open>
  C9. In every state reachable from the initial state by constructions, closes and
  receive-loop iterations (whatever the operating system answers), every consumer
  satisfies its invariant: its socket map has at most one entry per interface index, every
  socket in it is open, and if the closed flag is set the map is empty. Every operation
  keeps the consumer in existence, keeps its invariant, and keeps a set closed flag set.
\<close>

theorem Consumer_inv_reachable:
  "r < length (heap (run os acts ex_world)) \<Longrightarrow>
     Consumer_inv (run os acts ex_world) r \<and>
     r < length (heap (perform os act (run os acts ex_world))) \<and>
     Consumer_inv (perform os act (run os acts ex_world)) r \<and>
     (closed (heap (run os acts ex_world) ! r) \<longrightarrow>
        ipv4PacketConns (heap (run os acts ex_world) ! r) = [] \<and>
        closed (heap (perform os act (run os acts ex_world)) ! r))"
proof -
  assume r: "r < length (heap (run os acts ex_world))"
  let ?w = "run os acts ex_world"
  have i: "World_inv ?w"
    using World_inv_initial by (rule run_World_inv)
  then have i': "World_inv (perform os act ?w)"
    by (rule perform_World_inv)
  have k: "r < length (heap (perform os act ?w)) \<and>
         (closed (heap ?w ! r) \<longrightarrow> closed (heap (perform os act ?w) ! r))"
    using r by (rule perform_keeps_closed)
  have a: "Consumer_inv ?w r"
    using i r by (simp add: World_inv_def Consumer_inv_def Heap_ok_consumer)
  have b: "Consumer_inv (perform os act ?w) r"
    using i' k by (simp add: World_inv_def Consumer_inv_def Heap_ok_consumer)
  from a have "closed (heap ?w ! r) \<longrightarrow> ipv4PacketConns (heap ?w ! r) = []"
    by (simp add: Consumer_inv_def Consumer_ok_def)
  with a b k show ?thesis by blast
qed

theorem Consumer_inv_reachable_witness:
  "0 < length (heap (run os_ok [ActNewConsumer ex_group [ex_lo] 7] ex_world)) \<and>
   Consumer_inv (run os_ok [ActNewConsumer ex_group [ex_lo] 7] ex_world) 0 \<and>
   Consumer_inv (perform os_ok (ActClose 0) (run os_ok [ActNewConsumer ex_group [ex_lo] 7] ex_world)) 0 \<and>
   0 < length (heap (run os_ok [ActNewConsumer ex_group [ex_lo] 7, ActClose 0] ex_world)) \<and>
   closed (heap (run os_ok [ActNewConsumer ex_group [ex_lo] 7, ActClose 0] ex_world) ! 0) \<and>
   ipv4PacketConns (heap (run os_ok [ActNewConsumer ex_group [ex_lo] 7, ActClose 0] ex_world) ! 0) = [] \<and>
   closed (heap (perform os_ok (ActReceive 0 0 ex_lo 0 (ReadFailed False))
                  (run os_ok [ActNewConsumer ex_group [ex_lo] 7, ActClose 0] ex_world)) ! 0)"
proof -
  have h: "0 < length (heap (run os_ok [ActNewConsumer ex_group [ex_lo] 7] ex_world))"
    unfolding ex_run1 by (simp add: ex_world1_def)
  have h2: "0 < length (heap (run os_ok [ActNewConsumer ex_group [ex_lo] 7, ActClose 0] ex_world))"
    unfolding ex_run2 by (simp add: ex_world2_def)
  have c: "closed (heap (run os_ok [ActNewConsumer ex_group [ex_lo] 7, ActClose 0] ex_world) ! 0)"
    unfolding ex_run2 by (simp add: ex_world2_def)
  note a = Consumer_inv_reachable [OF h, of "ActClose 0"]
  note b = Consumer_inv_reachable [OF h2, of "ActReceive 0 0 ex_lo 0 (ReadFailed False)"]
  from a have a1: "Consumer_inv (run os_ok [ActNewConsumer ex_group [ex_lo] 7] ex_world) 0"
    by (rule conjunct1)
  from a have a2: "Consumer_inv (perform os_ok (ActClose 0) (run os_ok [ActNewConsumer ex_group [ex_lo] 7] ex_world)) 0"
    by (elim conjE)
  from b c have b1: "ipv4PacketConns (heap (run os_ok [ActNewConsumer ex_group [ex_lo] 7, ActClose 0] ex_world) ! 0) = [] \<and>
     closed (heap (perform os_ok (ActReceive 0 0 ex_lo 0 (ReadFailed False))
                  (run os_ok [ActNewConsumer ex_group [ex_lo] 7, ActClose 0] ex_world)) ! 0)"
    by (elim conjE impE) (assumption | rule conjI)+
  show ?thesis
    by (intro conjI h h2 c a1 a2 conjunct1 [OF b1] conjunct2 [OF b1])
qed

section \<open>What the receive loop hands to the callback\<close>

lemma store_front_length [simp]: "length (store_front bs old) = length old"
  by (simp add: store_front_def)

lemma store_front_exact: "length bs \<le> length old \<Longrightarrow> take (length bs) (store_front bs old) = bs"
  by (simp add: store_front_def)

lemma readLoop_iter_ReadDone:
  assumes "\<not> closed (heap w ! r)"
  shows "readLoop_iter r pc ifi buf (ReadDone n cm src bs) w =
     (let w1 = w\<lparr>mem := (mem w)[buf := store_front bs (mem w ! buf)]\<rparr>
      in case cm of
           None \<Rightarrow> (Running, w1)
         | Some m \<Rightarrow>
            if IP_Equal (Dst m) (IP (addr (heap w ! r))) then
              if n < 0 \<or> int (length (mem w1 ! buf)) < n then (Panicked, w1)
              else (Running,
                    w1\<lparr>mem := mem w1 @ [take (nat n) (mem w1 ! buf)],
                       calls := calls w1 @
                         [\<lparr>inv_cb = cb (heap w ! r), inv_ifi = ifi, inv_src = src,
                           inv_payload = \<lparr>arr = length (mem w1), len = nat n\<rparr>\<rparr>]\<rparr>)
            else (Running, w1))"
  using assms by (simp add: readLoop_iter_def Let_def split: option.splits)

text \<open>
  C8. Take an iteration of the receive loop in which the consumer was found open and the
  read returned a datagram (\<open>n\<close>, \<open>cm\<close>, \<open>src\<close>, the bytes stored in the buffer). If no
  destination was delivered or the delivered destination does not equal the group IP (as
  \<open>IP.Equal\<close> compares), the callback is not invoked. If it equals the group IP and \<open>n\<close> is
  within the buffer, the callback is invoked exactly once, with the consumer's callback,
  the loop's interface, the sender address and a payload slice of length \<open>n\<close> on a newly
  allocated array: an array that did not exist before, that is not the receive buffer,
  that holds the first \<open>n\<close> bytes of the buffer after the read (the bytes read, when the
  read stored \<open>n\<close> bytes), and that no later iteration of the loop changes.
\<close>

theorem readLoop_iter_callback:
  assumes op: "\<not> closed (heap w ! r)" and buf: "buf < length (mem w)"
    and it: "readLoop_iter r pc ifi buf (ReadDone n cm src bs) w = (st, w')"
  shows "(case cm of
            None \<Rightarrow> calls w' = calls w
          | Some m \<Rightarrow>
             if IP_Equal (Dst m) (IP (addr (heap w ! r))) \<and> 0 \<le> n \<and> n \<le> int (length (mem w ! buf))
             then st = Running \<and>
                  calls w' = calls w @
                    [\<lparr>inv_cb = cb (heap w ! r), inv_ifi = ifi, inv_src = src,
                      inv_payload = \<lparr>arr = length (mem w), len = nat n\<rparr>\<rparr>] \<and>
                  length (mem w) \<noteq> buf \<and>
                  length (mem w') = Suc (length (mem w)) \<and>
                  mem w' ! buf = store_front bs (mem w ! buf) \<and>
                  mem w' ! length (mem w) = take (nat n) (mem w' ! buf) \<and>
                  (length bs = nat n \<longrightarrow> mem w' ! length (mem w) = bs) \<and>
                  (\<forall>rd2. mem (snd (readLoop_iter r pc ifi buf rd2 w')) ! length (mem w) =
                          mem w' ! length (mem w))
             else calls w' = calls w)"
proof (cases cm)
  case None
  with it op show ?thesis
    by (auto simp: readLoop_iter_ReadDone Let_def)
next
  case (Some m)
  show ?thesis
  proof (cases "IP_Equal (Dst m) (IP (addr (heap w ! r))) \<and> 0 \<le> n \<and> n \<le> int (length (mem w ! buf))")
    case False
    with it op Some buf show ?thesis
      by (auto simp: readLoop_iter_ReadDone Let_def split: if_splits)
  next
    case True
    let ?p = "length (mem w)"
    have st: "st = Running"
      and w': "w' = w\<lparr>mem := (mem w)[buf := store_front bs (mem w ! buf)] @
                        [take (nat n) (store_front bs (mem w ! buf))],
                   calls := calls w @
                         [\<lparr>inv_cb = cb (heap w ! r), inv_ifi = ifi, inv_src = src,
                           inv_payload = \<lparr>arr = ?p, len = nat n\<rparr>\<rparr>]\<rparr>"
      using it op Some buf True by (auto simp: readLoop_iter_ReadDone Let_def)
    have m1: "mem w' ! buf = store_front bs (mem w ! buf)"
      using buf by (simp add: w' nth_append)
    have m2: "mem w' ! ?p = take (nat n) (mem w' ! buf)"
      using buf by (simp add: w' nth_append)
    have m3: "length bs = nat n \<longrightarrow> mem w' ! ?p = bs"
    proof
      assume e: "length bs = nat n"
      have "length bs \<le> length (mem w ! buf)"
        using True e by linarith
      then have "take (length bs) (store_front bs (mem w ! buf)) = bs"
        by (rule store_front_exact)
      with m1 m2 e show "mem w' ! ?p = bs" by simp
    qed
    have m4: "\<forall>rd2. mem (snd (readLoop_iter r pc ifi buf rd2 w')) ! ?p = mem w' ! ?p"
      using buf
      by (auto simp: readLoop_iter_def Let_def w' nth_append
               split: read_result.splits option.splits)
    have c: "calls w' = calls w @
                    [\<lparr>inv_cb = cb (heap w ! r), inv_ifi = ifi, inv_src = src,
                      inv_payload = \<lparr>arr = ?p, len = nat n\<rparr>\<rparr>]"
      by (simp add: w')
    have l: "length (mem w') = Suc ?p"
      by (simp add: w')
    from buf have "?p \<noteq> buf" by simp
    then have big: "st = Running \<and>
                  calls w' = calls w @
                    [\<lparr>inv_cb = cb (heap w ! r), inv_ifi = ifi, inv_src = src,
                      inv_payload = \<lparr>arr = length (mem w), len = nat n\<rparr>\<rparr>] \<and>
                  length (mem w) \<noteq> buf \<and>
                  length (mem w') = Suc (length (mem w)) \<and>
                  mem w' ! buf = store_front bs (mem w ! buf) \<and>
                  mem w' ! length (mem w) = take (nat n) (mem w' ! buf) \<and>
                  (length bs = nat n \<longrightarrow> mem w' ! length (mem w) = bs) \<and>
                  (\<forall>rd2. mem (snd (readLoop_iter r pc ifi buf rd2 w')) ! length (mem w) =
                          mem w' ! length (mem w))"
      using st c l m1 m2 m3 m4 by (intro conjI)
    show ?thesis
      unfolding Some option.case if_P [OF True] by (rule big)
  qed
qed

lemma ex_iter:
  "readLoop_iter 0 0 ex_lo 0 (ReadDone 2 (Some ex_cm) ex_src [0xAA, 0xBB]) ex_world4 =
     (Running,
      ex_world4\<lparr>mem := [[0xAA, 0xBB, 0, 0], [0xAA, 0xBB]],
                 calls := [\<lparr>inv_cb = 7, inv_ifi = ex_lo, inv_src = ex_src,
                           inv_payload = \<lparr>arr = 1, len = 2\<rparr>\<rparr>]\<rparr>)"
  by (simp add: readLoop_iter_def Let_def ex_world4_def ex_world1_def ex_cm_def ex_group_def
        IP_Equal_def store_front_def)

lemma ex_iter_other:
  "readLoop_iter 0 0 ex_lo 0 (ReadDone 2 (Some ex_cm_other) ex_src [0xAA, 0xBB]) ex_world4 =
     (Running, ex_world4\<lparr>mem := [[0xAA, 0xBB, 0, 0]]\<rparr>)"
  by (simp add: readLoop_iter_def Let_def ex_world4_def ex_world1_def ex_cm_other_def
        ex_group_def IP_Equal_def store_front_def)

theorem readLoop_iter_callback_witness:
  "\<not> closed (heap ex_world4 ! 0) \<and> 0 < length (mem ex_world4) \<and>
   readLoop_iter 0 0 ex_lo 0 (ReadDone 2 (Some ex_cm) ex_src [0xAA, 0xBB]) ex_world4 =
     (Running,
      ex_world4\<lparr>mem := [[0xAA, 0xBB, 0, 0], [0xAA, 0xBB]],
                 calls := [\<lparr>inv_cb = 7, inv_ifi = ex_lo, inv_src = ex_src,
                           inv_payload = \<lparr>arr = 1, len = 2\<rparr>\<rparr>]\<rparr>) \<and>
   IP_Equal (Dst ex_cm) (IP (addr (heap ex_world4 ! 0))) \<and>
   length (mem ex_world4) \<noteq> 0 \<and>
   (\<forall>rd2. mem (snd (readLoop_iter 0 0 ex_lo 0 rd2
                  (ex_world4\<lparr>mem := [[0xAA, 0xBB, 0, 0], [0xAA, 0xBB]],
                     calls := [\<lparr>inv_cb = 7, inv_ifi = ex_lo, inv_src = ex_src,
                               inv_payload = \<lparr>arr = 1, len = 2\<rparr>\<rparr>]\<rparr>))) !
            length (mem ex_world4) =
          mem (ex_world4\<lparr>mem := [[0xAA, 0xBB, 0, 0], [0xAA, 0xBB]],
                     calls := [\<lparr>inv_cb = 7, inv_ifi = ex_lo, inv_src = ex_src,
                               inv_payload = \<lparr>arr = 1, len = 2\<rparr>\<rparr>]\<rparr>) !
            length (mem ex_world4)) \<and>
   readLoop_iter 0 0 ex_lo 0 (ReadDone 2 (Some ex_cm_other) ex_src [0xAA, 0xBB]) ex_world4 =
     (Running, ex_world4\<lparr>mem := [[0xAA, 0xBB, 0, 0]]\<rparr>) \<and>
   \<not> IP_Equal (Dst ex_cm_other) (IP (addr (heap ex_world4 ! 0))) \<and>
   calls (ex_world4\<lparr>mem := [[0xAA, 0xBB, 0, 0]]\<rparr>) = calls ex_world4"
proof -
  have h1: "\<not> closed (heap ex_world4 ! 0)" and h2: "0 < length (mem ex_world4)"
    by (simp_all add: ex_world4_def ex_world1_def)
  have d: "IP_Equal (Dst ex_cm) (IP (addr (heap ex_world4 ! 0)))"
    and d': "\<not> IP_Equal (Dst ex_cm_other) (IP (addr (heap ex_world4 ! 0)))"
    by (simp_all add: ex_world4_def ex_world1_def ex_cm_def ex_cm_other_def ex_group_def
          IP_Equal_def)
  have n: "(0::int) \<le> 2" "(2::int) \<le> int (length (mem ex_world4 ! 0))"
    by (simp_all add: ex_world4_def)
  have c: "IP_Equal (Dst ex_cm) (IP (addr (heap ex_world4 ! 0))) \<and>
           (0::int) \<le> 2 \<and> 2 \<le> int (length (mem ex_world4 ! 0))"
    by (intro conjI d n)
  have c': "\<not> (IP_Equal (Dst ex_cm_other) (IP (addr (heap ex_world4 ! 0))) \<and>
           (0::int) \<le> 2 \<and> 2 \<le> int (length (mem ex_world4 ! 0)))"
    using d' by blast
  have l': "length (mem ex_world4) \<noteq> 0"
    using h2 by simp
  note t = readLoop_iter_callback [OF h1 h2 ex_iter, unfolded option.case if_P [OF c]]
  from t have a: "\<forall>rd2. mem (snd (readLoop_iter 0 0 ex_lo 0 rd2
                  (ex_world4\<lparr>mem := [[0xAA, 0xBB, 0, 0], [0xAA, 0xBB]],
                     calls := [\<lparr>inv_cb = 7, inv_ifi = ex_lo, inv_src = ex_src,
                               inv_payload = \<lparr>arr = 1, len = 2\<rparr>\<rparr>]\<rparr>))) !
            length (mem ex_world4) =
          mem (ex_world4\<lparr>mem := [[0xAA, 0xBB, 0, 0], [0xAA, 0xBB]],
                     calls := [\<lparr>inv_cb = 7, inv_ifi = ex_lo, inv_src = ex_src,
                               inv_payload = \<lparr>arr = 1, len = 2\<rparr>\<rparr>]\<rparr>) !
            length (mem ex_world4)"
    by (elim conjE)
  note b = readLoop_iter_callback [OF h1 h2 ex_iter_other, unfolded option.case if_not_P [OF c']]
  show ?thesis
    by (intro conjI h1 h2 ex_iter d l' a ex_iter_other d' b)
qed

lemma readLoop_iter_mem:
  assumes "buf < length (mem w)" and "readLoop_iter r pc ifi buf rd w = (st, w')"
  shows "buf < length (mem w') \<and> length (mem w' ! buf) = length (mem w ! buf) \<and>
         length (mem w) \<le> length (mem w') \<and>
         (\<forall>a<length (mem w). a \<noteq> buf \<longrightarrow> mem w' ! a = mem w ! a)"
  using assms
  by (auto simp: readLoop_iter_def Let_def nth_append
           split: read_result.splits option.splits if_splits)

lemma readLoop_iter_calls:
  assumes "buf < length (mem w)" and "readLoop_iter r pc ifi buf rd w = (st, w')"
  shows "calls w' = calls w \<or>
         (\<exists>i. calls w' = calls w @ [i] \<and> payload_ok (length (mem w ! buf)) buf w' i)"
  using assms
  by (auto simp: readLoop_iter_def Let_def nth_append payload_ok_def
           split: read_result.splits option.splits if_splits)

lemma payload_ok_kept:
  assumes "payload_ok k buf w i" and "length (mem w) \<le> length (mem w')"
    and "\<forall>a<length (mem w). a \<noteq> buf \<longrightarrow> mem w' ! a = mem w ! a"
  shows "payload_ok k buf w' i"
  using assms by (auto simp: payload_ok_def)

lemma readLoop_from_mem:
  "readLoop_from r pc ifi buf rds w = (st, w') \<Longrightarrow> buf < length (mem w) \<Longrightarrow>
     buf < length (mem w') \<and> length (mem w' ! buf) = length (mem w ! buf) \<and>
     length (mem w) \<le> length (mem w') \<and>
     (\<forall>a<length (mem w). a \<noteq> buf \<longrightarrow> mem w' ! a = mem w ! a)"
proof (induction rds arbitrary: w)
  case Nil
  then show ?case by simp
next
  case (Cons rd rds)
  obtain s1 w1 where i: "readLoop_iter r pc ifi buf rd w = (s1, w1)"
    by (cases "readLoop_iter r pc ifi buf rd w")
  note m = readLoop_iter_mem [OF Cons.prems(2) i]
  show ?case
  proof (cases "s1 = Running")
    case False
    with Cons.prems(1) i have "w' = w1"
      by (cases s1) simp_all
    with m show ?thesis by simp
  next
    case True
    with Cons.prems(1) i have l: "readLoop_from r pc ifi buf rds w1 = (st, w')"
      by simp
    from m have b1: "buf < length (mem w1)" by (rule conjunct1)
    note ih = Cons.IH [OF l b1]
    from ih have g1: "buf < length (mem w')" by (rule conjunct1)
    from ih m have g2: "length (mem w' ! buf) = length (mem w ! buf)" by simp
    from ih m have g3: "length (mem w) \<le> length (mem w')" by linarith
    have g4: "mem w' ! a = mem w ! a" if a: "a < length (mem w)" "a \<noteq> buf" for a
    proof -
      from m a have "a < length (mem w1)" by linarith
      with ih a have "mem w' ! a = mem w1 ! a" by blast
      moreover from m a have "mem w1 ! a = mem w ! a" by blast
      ultimately show ?thesis by simp
    qed
    from g1 g2 g3 g4 show ?thesis by blast
  qed
qed

lemma readLoop_from_calls:
  "readLoop_from r pc ifi buf rds w = (st, w') \<Longrightarrow> buf < length (mem w) \<Longrightarrow>
     \<exists>new. calls w' = calls w @ new \<and>
           (\<forall>i\<in>set new. payload_ok (length (mem w ! buf)) buf w' i)"
proof (induction rds arbitrary: w)
  case Nil
  then show ?case by simp
next
  case (Cons rd rds)
  obtain s1 w1 where i: "readLoop_iter r pc ifi buf rd w = (s1, w1)"
    by (cases "readLoop_iter r pc ifi buf rd w")
  note m = readLoop_iter_mem [OF Cons.prems(2) i]
  note c = readLoop_iter_calls [OF Cons.prems(2) i]
  from c obtain first where f: "calls w1 = calls w @ first"
    and fo: "\<forall>i\<in>set first. payload_ok (length (mem w ! buf)) buf w1 i"
  proof
    assume "calls w1 = calls w"
    then show ?thesis using that [of "[]"] by simp
  next
    assume "\<exists>i. calls w1 = calls w @ [i] \<and> payload_ok (length (mem w ! buf)) buf w1 i"
    then obtain i where "calls w1 = calls w @ [i]" "payload_ok (length (mem w ! buf)) buf w1 i"
      by blast
    then show ?thesis using that [of "[i]"] by simp
  qed
  show ?case
  proof (cases "s1 = Running")
    case False
    with Cons.prems(1) i have "w' = w1"
      by (cases s1) simp_all
    with f fo show ?thesis by blast
  next
    case True
    with Cons.prems(1) i have l: "readLoop_from r pc ifi buf rds w1 = (st, w')"
      by simp
    from m have b1: "buf < length (mem w1)" by (rule conjunct1)
    from m have k: "length (mem w1 ! buf) = length (mem w ! buf)" by simp
    from Cons.IH [OF l b1] obtain later where la: "calls w' = calls w1 @ later"
      and lo: "\<forall>i\<in>set later. payload_ok (length (mem w1 ! buf)) buf w' i"
      by blast
    note fm = readLoop_from_mem [OF l b1]
    have "payload_ok (length (mem w ! buf)) buf w' i" if "i \<in> set first" for i
    proof (rule payload_ok_kept)
      show "payload_ok (length (mem w ! buf)) buf w1 i"
        using fo that by blast
      show "length (mem w1) \<le> length (mem w')"
        using fm by simp
      show "\<forall>a<length (mem w1). a \<noteq> buf \<longrightarrow> mem w' ! a = mem w1 ! a"
        using fm by simp
    qed
    with lo k have "\<forall>i\<in>set (first @ later). payload_ok (length (mem w ! buf)) buf w' i"
      by auto
    moreover have "calls w' = calls w @ (first @ later)"
      by (simp add: la f)
    ultimately show ?thesis by blast
  qed
qed

lemma store_front_full: "length bs = length old \<Longrightarrow> store_front bs old = bs"
  by (simp add: store_front_def)

lemma read_datagram_truncates:
  "read_datagram k cm src d = read_datagram k cm src (take k d)"
  by (simp add: read_datagram_def)

lemma readLoop_long_datagram:
  assumes op: "\<not> closed (heap w ! r)" and eq: "IP_Equal (Dst m) (IP (addr (heap w ! r)))"
    and long: "maxMTU < length d"
  shows "readLoop r pc ifi [read_datagram maxMTU (Some m) src d] w =
       (Running,
        w\<lparr>mem := mem w @ [take maxMTU d, take maxMTU d],
          calls := calls w @
            [\<lparr>inv_cb = cb (heap w ! r), inv_ifi = ifi, inv_src = src,
              inv_payload = \<lparr>arr = Suc (length (mem w)), len = maxMTU\<rparr>\<rparr>]\<rparr>)"
proof -
  let ?w0 = "w\<lparr>mem := mem w @ [replicate maxMTU 0]\<rparr>"
  have s: "store_front (take maxMTU d) (replicate maxMTU 0) = take maxMTU d"
    using long by (intro store_front_full) simp
  have n: "min maxMTU (length d) = maxMTU"
    using long by simp
  have "readLoop_iter r pc ifi (length (mem w)) (read_datagram maxMTU (Some m) src d) ?w0 =
       (Running,
        w\<lparr>mem := mem w @ [take maxMTU d, take maxMTU d],
          calls := calls w @
            [\<lparr>inv_cb = cb (heap w ! r), inv_ifi = ifi, inv_src = src,
              inv_payload = \<lparr>arr = Suc (length (mem w)), len = maxMTU\<rparr>\<rparr>]\<rparr>)"
    using op eq long
    by (simp add: readLoop_iter_def read_datagram_def Let_def s n)
  then show ?thesis
    by (simp add: readLoop_def)
qed

lemma ex_open: "\<not> closed (heap ex_world1 ! 0)"
  by (simp add: ex_world1_def)

lemma ex_dst: "IP_Equal (Dst ex_cm) (IP (addr (heap ex_world1 ! 0)))"
  by (simp add: ex_world1_def ex_cm_def ex_group_def IP_Equal_def)

text \<open>
  C10. Whatever the reads of a receive loop return, every invocation of the callback that
  the loop makes gets a payload slice of at most 1500 bytes (\<open>maxMTU\<close>, the size of the
  receive buffer), on an array of exactly that length. When a datagram longer than 1500
  bytes arrives for the group (the socket hands over the first 1500 bytes and that
  count), the callback gets exactly its first 1500 bytes, the loop goes on, and the whole
  outcome is the one of a datagram that ended after 1500 bytes: nothing tells that bytes
  were dropped.
\<close>

theorem readLoop_payload_bound:
  "(readLoop r pc ifi rds w = (st, w') \<longrightarrow>
      (\<exists>new. calls w' = calls w @ new \<and>
             (\<forall>i\<in>set new. len (inv_payload i) \<le> 1500 \<and>
                            length (mem w' ! arr (inv_payload i)) = len (inv_payload i)))) \<and>
   (\<not> closed (heap w ! r) \<and> IP_Equal (Dst m) (IP (addr (heap w ! r))) \<and> 1500 < length d \<longrightarrow>
      readLoop r pc ifi [read_datagram maxMTU (Some m) src d] w =
        (Running,
         w\<lparr>mem := mem w @ [take 1500 d, take 1500 d],
           calls := calls w @
             [\<lparr>inv_cb = cb (heap w ! r), inv_ifi = ifi, inv_src = src,
               inv_payload = \<lparr>arr = Suc (length (mem w)), len = 1500\<rparr>\<rparr>]\<rparr>) \<and>
      readLoop r pc ifi [read_datagram maxMTU (Some m) src d] w =
      readLoop r pc ifi [read_datagram maxMTU (Some m) src (take 1500 d)] w)"
proof (intro conjI impI)
  assume l: "readLoop r pc ifi rds w = (st, w')"
  let ?w0 = "w\<lparr>mem := mem w @ [replicate maxMTU 0]\<rparr>"
  from l have l0: "readLoop_from r pc ifi (length (mem w)) rds ?w0 = (st, w')"
    by (simp add: readLoop_def)
  have b: "length (mem w) < length (mem ?w0)"
    by simp
  from readLoop_from_calls [OF l0 b]
  obtain new where c: "calls w' = calls w @ new"
    and p: "\<forall>i\<in>set new. payload_ok maxMTU (length (mem w)) w' i"
    by auto
  from p have "\<forall>i\<in>set new. len (inv_payload i) \<le> 1500 \<and>
                 length (mem w' ! arr (inv_payload i)) = len (inv_payload i)"
    by (simp add: payload_ok_def maxMTU_def)
  with c show "\<exists>new. calls w' = calls w @ new \<and>
             (\<forall>i\<in>set new. len (inv_payload i) \<le> 1500 \<and>
                            length (mem w' ! arr (inv_payload i)) = len (inv_payload i))"
    by blast
next
  assume a: "\<not> closed (heap w ! r) \<and> IP_Equal (Dst m) (IP (addr (heap w ! r))) \<and> 1500 < length d"
  then have "maxMTU < length d"
    by (simp add: maxMTU_def)
  with a have "readLoop r pc ifi [read_datagram maxMTU (Some m) src d] w =
       (Running,
        w\<lparr>mem := mem w @ [take maxMTU d, take maxMTU d],
          calls := calls w @
            [\<lparr>inv_cb = cb (heap w ! r), inv_ifi = ifi, inv_src = src,
              inv_payload = \<lparr>arr = Suc (length (mem w)), len = maxMTU\<rparr>\<rparr>]\<rparr>)"
    by (intro readLoop_long_datagram) simp_all
  then show "readLoop r pc ifi [read_datagram maxMTU (Some m) src d] w =
        (Running,
         w\<lparr>mem := mem w @ [take 1500 d, take 1500 d],
           calls := calls w @
             [\<lparr>inv_cb = cb (heap w ! r), inv_ifi = ifi, inv_src = src,
               inv_payload = \<lparr>arr = Suc (length (mem w)), len = 1500\<rparr>\<rparr>]\<rparr>)"
    by (simp only: maxMTU_def)
next
  have "read_datagram maxMTU (Some m) src d = read_datagram maxMTU (Some m) src (take maxMTU d)"
    by (rule read_datagram_truncates)
  then show "readLoop r pc ifi [read_datagram maxMTU (Some m) src d] w =
      readLoop r pc ifi [read_datagram maxMTU (Some m) src (take 1500 d)] w"
    by (simp only: maxMTU_def)
qed

theorem readLoop_payload_bound_witness:
  "\<not> closed (heap ex_world1 ! 0) \<and> IP_Equal (Dst ex_cm) (IP (addr (heap ex_world1 ! 0))) \<and>
   1500 < length ex_long \<and>
   readLoop 0 0 ex_lo [read_datagram maxMTU (Some ex_cm) ex_src ex_long] ex_world1 =
     (Running,
      ex_world1\<lparr>mem := mem ex_world1 @ [take 1500 ex_long, take 1500 ex_long],
           calls := calls ex_world1 @
             [\<lparr>inv_cb = cb (heap ex_world1 ! 0), inv_ifi = ex_lo, inv_src = ex_src,
               inv_payload = \<lparr>arr = Suc (length (mem ex_world1)), len = 1500\<rparr>\<rparr>]\<rparr>) \<and>
   (\<exists>new. calls (ex_world1\<lparr>mem := mem ex_world1 @ [take 1500 ex_long, take 1500 ex_long],
           calls := calls ex_world1 @
             [\<lparr>inv_cb = cb (heap ex_world1 ! 0), inv_ifi = ex_lo, inv_src = ex_src,
               inv_payload = \<lparr>arr = Suc (length (mem ex_world1)), len = 1500\<rparr>\<rparr>]\<rparr>) =
          calls ex_world1 @ new \<and>
          (\<forall>i\<in>set new. len (inv_payload i) \<le> 1500 \<and>
             length (mem (ex_world1\<lparr>mem := mem ex_world1 @ [take 1500 ex_long, take 1500 ex_long],
           calls := calls ex_world1 @
             [\<lparr>inv_cb = cb (heap ex_world1 ! 0), inv_ifi = ex_lo, inv_src = ex_src,
               inv_payload = \<lparr>arr = Suc (length (mem ex_world1)), len = 1500\<rparr>\<rparr>]\<rparr>) ! arr (inv_payload i)) =
             len (inv_payload i)))"
proof -
  have h: "\<not> closed (heap ex_world1 ! 0) \<and> IP_Equal (Dst ex_cm) (IP (addr (heap ex_world1 ! 0))) \<and>
           1500 < length ex_long"
    by (simp add: ex_open ex_dst) (simp add: ex_long_def)
  from readLoop_payload_bound [of 0 0 ex_lo "[]" ex_world1 Running ex_world1 ex_cm ex_long ex_src]
  have "\<not> closed (heap ex_world1 ! 0) \<and> IP_Equal (Dst ex_cm) (IP (addr (heap ex_world1 ! 0))) \<and>
           1500 < length ex_long \<longrightarrow>
      readLoop 0 0 ex_lo [read_datagram maxMTU (Some ex_cm) ex_src ex_long] ex_world1 =
     (Running,
      ex_world1\<lparr>mem := mem ex_world1 @ [take 1500 ex_long, take 1500 ex_long],
           calls := calls ex_world1 @
             [\<lparr>inv_cb = cb (heap ex_world1 ! 0), inv_ifi = ex_lo, inv_src = ex_src,
               inv_payload = \<lparr>arr = Suc (length (mem ex_world1)), len = 1500\<rparr>\<rparr>]\<rparr>) \<and>
      readLoop 0 0 ex_lo [read_datagram maxMTU (Some ex_cm) ex_src ex_long] ex_world1 =
      readLoop 0 0 ex_lo [read_datagram maxMTU (Some ex_cm) ex_src (take 1500 ex_long)] ex_world1"
    by (rule conjunct2)
  with h have l: "readLoop 0 0 ex_lo [read_datagram maxMTU (Some ex_cm) ex_src ex_long] ex_world1 =
     (Running,
      ex_world1\<lparr>mem := mem ex_world1 @ [take 1500 ex_long, take 1500 ex_long],
           calls := calls ex_world1 @
             [\<lparr>inv_cb = cb (heap ex_world1 ! 0), inv_ifi = ex_lo, inv_src = ex_src,
               inv_payload = \<lparr>arr = Suc (length (mem ex_world1)), len = 1500\<rparr>\<rparr>]\<rparr>)"
    by (elim impE conjE) (assumption | rule conjI)+
  note p = readLoop_payload_bound [of 0 0 ex_lo "[read_datagram maxMTU (Some ex_cm) ex_src ex_long]" ex_world1
      Running _ ex_cm ex_long ex_src, THEN conjunct1, THEN mp, OF l]
  from h l p show ?thesis
    by (intro conjI) (elim conjE, assumption)+
qed

end
